theory Spec2Isabelle
  imports
    Main
    "HOL-Library.Word"
    "HOL-Library.AList"
    "HOL-Library.Char_ord"
    "HOL-Library.List_Lexorder"
begin

unbundle bit_operations_syntax

section \<open>YokelGraph: the graph engine of \<open>Graph.hpp\<close>\<close>

text \<open>
  The class \<open>yokel::graph_c<NODE_ID_TYPE, EDGE_DATA>\<close> is embedded with explicit state
  passing. Identifiers are a type \<open>'id\<close> with a linear order (the key order of
  \<open>std::map\<close>), edge payloads a type \<open>'e\<close>. \<open>std::size_t\<close> is a 64-bit word, and
  \<open>std::hash<NODE_ID_TYPE>\<close>, which belongs to the standard library and not to this
  repository, is a parameter \<open>h\<close> of every operation that hashes.
\<close>

type_synonym size_t = "64 word"

subsection \<open>Data\<close>

text \<open>
  \<open>node_s\<close>. A node lives in \<open>_node_storage\<close> under its own identifier
  (\<open>emplace(id, node_s(id))\<close>) and is never moved or erased, so a \<open>node_s*\<close> is modelled by
  the identifier of the node it points to: \<open>out\<close> is a list of identifiers, and so is a
  \<open>node_list_t\<close>. The field \<open>id\<close> is the key of the entry.
\<close>

record 'id node_s =
  out :: "'id list"
  marked :: bool

type_synonym 'id node_list_t = "'id list"
type_synonym 'id node_map = "('id \<times> 'id node_s) list"

text \<open>
  The members of \<open>graph_c\<close>. \<open>_node_storage\<close> is an association list kept in key order,
  because \<open>contains_cycles\<close> iterates over it. \<open>_edge_storage\<close> is only ever searched and
  assigned, so it is a partial function. \<open>_cache\<close> is an association list with one entry
  per key: \<open>optimize_trace\<close> iterates over it, but only to add up sizes, so the order of
  its entries is not observable.
\<close>

record ('id, 'e) graph_c =
  contains_cycles_flag :: bool
  node_storage :: "'id node_map"
  edge_storage :: "size_t \<rightharpoonup> 'e"
  cache_enabled :: bool
  average_path_len :: size_t
  cache :: "(size_t \<times> 'id node_list_t) list"

text \<open>The argument of \<open>build_from\<close>.\<close>

record ('id, 'e) edge_s =
  from_id :: 'id
  to_id :: 'id
  data :: 'e

record ('id, 'e) source_s =
  nodes :: "'id list"
  edges :: "('id, 'e) edge_s list"

text \<open>The two constructors: \<open>graph_c()\<close> leaves \<open>_cache_enabled\<close> at its default \<open>true\<close>.\<close>

definition graph_c_with :: "bool \<Rightarrow> ('id, 'e) graph_c" where
  "graph_c_with enabled =
     \<lparr>contains_cycles_flag = False, node_storage = [], edge_storage = Map.empty,
      cache_enabled = enabled, average_path_len = 0, cache = []\<rparr>"

definition graph_c_default :: "('id, 'e) graph_c" where
  "graph_c_default = graph_c_with True"

definition DEFAULT_TRACE_RESERVATION :: size_t where
  "DEFAULT_TRACE_RESERVATION = 5"

subsection \<open>Private helpers\<close>

definition merge_ids :: "('id \<Rightarrow> size_t) \<Rightarrow> 'id \<Rightarrow> 'id \<Rightarrow> size_t" where
  "merge_ids h from to = h from XOR push_bit 1 (h to)"

definition load_node :: "('id, 'e) graph_c \<Rightarrow> 'id \<Rightarrow> 'id node_s option" where
  "load_node g x = map_of (node_storage g) x"

text \<open>Writing the \<open>marked\<close> field of the node an identifier points to.\<close>

definition set_marked :: "'id \<Rightarrow> bool \<Rightarrow> 'id node_map \<Rightarrow> 'id node_map" where
  "set_marked x b ns = AList.map_entry x (\<lambda>n. n\<lparr>marked := b\<rparr>) ns"

text \<open>The loop \<open>for (auto* x : current_path) x->marked = false\<close> of \<open>find\<close>.\<close>

definition unmark_all :: "'id node_list_t \<Rightarrow> 'id node_map \<Rightarrow> 'id node_map" where
  "unmark_all p ns = fold (\<lambda>x. set_marked x False) p ns"

text \<open>
  The selection loop at the end of \<open>find\<close>: the index of the first path that is strictly
  shorter than every path before it, starting from \<open>smallest = SIZE_MAX\<close>.
\<close>

definition SIZE_MAX :: nat where
  "SIZE_MAX = 18446744073709551615"

fun smallest_loop :: "'a list list \<Rightarrow> nat \<Rightarrow> nat \<Rightarrow> nat \<Rightarrow> nat" where
  "smallest_loop [] i idx smallest = idx"
| "smallest_loop (p # ps) i idx smallest =
     (if length p < smallest then smallest_loop ps (Suc i) i (length p)
      else smallest_loop ps (Suc i) idx smallest)"

definition smallest_idx :: "'a list list \<Rightarrow> nat" where
  "smallest_idx traversed_path = smallest_loop traversed_path 0 0 SIZE_MAX"

subsection \<open>The tracer\<close>

text \<open>
  \<open>graph_c::find\<close> is \<open>find_path\<close> here (\<open>find\<close> is a function on lists). It takes the
  store and returns it, since it writes the \<open>marked\<close> fields; \<open>path\<close> is its in-out
  parameter. \<open>find_nbrs\<close> is the loop over \<open>node.out\<close>, with the paths collected so far in
  \<open>traversed_path\<close>. The \<open>reservation\<close> argument and the calls of \<open>reserve\<close> only size
  vectors and are left out.

  \<open>graph_c::find\<close> is private and is entered with the identifier of a stored node only:
  \<open>trace\<close> checks both of its arguments with \<open>load_node\<close>, and the elements of an \<open>out\<close>
  list point to stored nodes. The first branch below covers stores of the model that no
  graph object can be in; there \<open>_node_storage[from]\<close> would create an entry. In every
  state of a graph object the elements of the \<open>out\<close> lists are stored (\<open>reachable_inv\<close> and
  \<open>edge_of_stored\<close> below).
\<close>

function find_path ::
    "'id node_map \<Rightarrow> 'id \<Rightarrow> 'id \<Rightarrow> 'id node_list_t \<Rightarrow> bool \<times> 'id node_list_t \<times> 'id node_map"
  and find_nbrs ::
    "'id node_map \<Rightarrow> 'id \<Rightarrow> 'id list \<Rightarrow> 'id node_list_t list
       \<Rightarrow> 'id node_list_t list \<times> 'id node_map"
where
  "find_path ns from to path =
     (case map_of ns from of
        None \<Rightarrow> (False, path, ns)
      | Some node \<Rightarrow>
          if marked node then (False, path, ns)
          else if from = to then (True, path @ [from], ns)
          else
            (case find_nbrs (set_marked from True ns) to (out node) [] of
               (traversed_path, ns1) \<Rightarrow>
                 if traversed_path = [] then (False, path, set_marked from False ns1)
                 else (True, path @ [from] @ traversed_path ! smallest_idx traversed_path,
                       set_marked from False ns1)))"
| "find_nbrs ns to [] traversed_path = (traversed_path, ns)"
| "find_nbrs ns to (neighbor # rest) traversed_path =
     (case find_path ns neighbor to [] of
        (found, current_path, ns1) \<Rightarrow>
          find_nbrs (unmark_all current_path ns1) to rest
            (if found then traversed_path @ [current_path] else traversed_path))"
  by pat_completeness auto


subsection \<open>Public operations\<close>

text \<open>Every mutating operation returns its result together with the new state.\<close>

definition clear_cache :: "('id, 'e) graph_c \<Rightarrow> ('id, 'e) graph_c" where
  "clear_cache g = g\<lparr>cache := []\<rparr>"

definition toggle_cache :: "bool \<Rightarrow> ('id, 'e) graph_c \<Rightarrow> ('id, 'e) graph_c" where
  "toggle_cache is_enabled g = clear_cache (g\<lparr>cache_enabled := is_enabled\<rparr>)"

text \<open>\<open>_node_storage.emplace(id, node_s(id))\<close>: a fresh node at its place in key order.\<close>

definition emplace :: "'id::linorder \<Rightarrow> 'id node_map \<Rightarrow> 'id node_map" where
  "emplace x ns =
     (if map_of ns x = None then insort_key fst (x, \<lparr>out = [], marked = False\<rparr>) ns else ns)"

definition add_node :: "('id::linorder, 'e) graph_c \<Rightarrow> 'id \<Rightarrow> bool \<times> ('id, 'e) graph_c" where
  "add_node g x =
     (if load_node g x \<noteq> None then (False, g)
      else
        let g1 = clear_cache g;
            g2 = g1\<lparr>node_storage := emplace x (node_storage g1)\<rparr>
        in (True, g2\<lparr>contains_cycles_flag := False\<rparr>))"

text \<open>\<open>from_node->out.push_back(to_node)\<close>.\<close>

definition push_out :: "'id \<Rightarrow> 'id \<Rightarrow> 'id node_map \<Rightarrow> 'id node_map" where
  "push_out from to ns = AList.map_entry from (\<lambda>n. n\<lparr>out := out n @ [to]\<rparr>) ns"

definition add_edge ::
    "('id \<Rightarrow> size_t) \<Rightarrow> ('id, 'e) graph_c \<Rightarrow> 'id \<Rightarrow> 'id \<Rightarrow> 'e \<Rightarrow> bool \<times> ('id, 'e) graph_c" where
  "add_edge h g from to edge_data =
     (if load_node g to = None then (False, g)
      else if load_node g from = None then (False, g)
      else
        let edge_hash = merge_ids h from to
        in if edge_storage g edge_hash \<noteq> None then (False, g)
           else
             let g1 = clear_cache g;
                 g2 = g1\<lparr>node_storage := push_out from to (node_storage g1)\<rparr>;
                 g3 = g2\<lparr>edge_storage := (edge_storage g2)(edge_hash \<mapsto> edge_data)\<rparr>
             in (True, g3\<lparr>contains_cycles_flag := False\<rparr>))"

text \<open>
  \<open>build_from\<close>: the two loops stop at the first failure and keep what was added before.
\<close>

fun add_nodes :: "('id::linorder, 'e) graph_c \<Rightarrow> 'id list \<Rightarrow> bool \<times> ('id, 'e) graph_c" where
  "add_nodes g [] = (True, g)"
| "add_nodes g (node # rest) =
     (case add_node g node of (ok, g1) \<Rightarrow> if ok then add_nodes g1 rest else (False, g1))"

fun add_edges ::
    "('id \<Rightarrow> size_t) \<Rightarrow> ('id, 'e) graph_c \<Rightarrow> ('id, 'e) edge_s list \<Rightarrow> bool \<times> ('id, 'e) graph_c"
where
  "add_edges h g [] = (True, g)"
| "add_edges h g (edge # rest) =
     (case add_edge h g (from_id edge) (to_id edge) (data edge) of
        (ok, g1) \<Rightarrow> if ok then add_edges h g1 rest else (False, g1))"

definition build_from ::
    "('id::linorder \<Rightarrow> size_t) \<Rightarrow> ('id, 'e) graph_c \<Rightarrow> ('id, 'e) source_s
       \<Rightarrow> bool \<times> ('id, 'e) graph_c" where
  "build_from h g source =
     (case add_nodes g (nodes source) of
        (ok, g1) \<Rightarrow> if ok then add_edges h g1 (edges source) else (False, g1))"

text \<open>
  \<open>optimize_trace\<close>. \<open>total_paths_len / _cache.size()\<close> divides two \<open>std::size_t\<close>, so the
  argument of \<open>std::ceil\<close> is already an integer: the call converts it to \<open>double\<close> and
  the assignment converts it back, which returns the quotient itself (for a quotient below
  \<open>2 ^ 53\<close>, which a sum of path lengths is). The two tests of the guard are the two
  operands of \<open>||\<close>, in their order.
\<close>

definition total_paths_len :: "(size_t \<times> 'id node_list_t) list \<Rightarrow> size_t" where
  "total_paths_len c = fold (\<lambda>entry total. total + of_nat (length (snd entry))) c 0"

definition optimize_trace :: "('id, 'e) graph_c \<Rightarrow> bool \<times> ('id, 'e) graph_c" where
  "optimize_trace g =
     (if \<not> cache_enabled g then (False, g)
      else if cache g = [] then (False, g)
      else (True, g\<lparr>average_path_len :=
                      total_paths_len (cache g) div of_nat (length (cache g))\<rparr>))"

text \<open>
  \<open>trace\<close>. \<open>_cache[merged_ids] = {result}\<close> is \<open>AList.update\<close>. The store that \<open>find\<close>
  hands back replaces \<open>_node_storage\<close>.
\<close>

definition trace ::
    "('id \<Rightarrow> size_t) \<Rightarrow> ('id, 'e) graph_c \<Rightarrow> 'id \<Rightarrow> 'id
       \<Rightarrow> 'id node_list_t option \<times> ('id, 'e) graph_c" where
  "trace h g from to =
     (if load_node g to = None then (None, g)
      else if load_node g from = None then (None, g)
      else
        (case (if cache_enabled g then map_of (cache g) (merge_ids h from to) else None) of
           Some hit \<Rightarrow> (Some hit, g)
         | None \<Rightarrow>
             (case find_path (node_storage g) from to [] of
                (found, result, ns) \<Rightarrow>
                  let g1 = g\<lparr>node_storage := ns\<rparr>
                  in if \<not> found then (None, g1)
                     else if cache_enabled g
                       then (Some result,
                             g1\<lparr>cache := AList.update (merge_ids h from to) result (cache g1)\<rparr>)
                       else (Some result, g1))))"

text \<open>
  \<open>load_edges\<close> returns pointers into \<open>_edge_storage\<close>; the model returns the payloads they
  point to. \<open>edges_along\<close> is the loop over the consecutive pairs of the path. The member
  function is not \<open>const\<close>: like the other operations it returns, next to its result, the
  state of the object after the call.
\<close>

fun edges_along :: "('id \<Rightarrow> size_t) \<Rightarrow> (size_t \<rightharpoonup> 'e) \<Rightarrow> 'id node_list_t \<Rightarrow> 'e list option" where
  "edges_along h es (a # b # rest) =
     (case es (merge_ids h a b) of
        None \<Rightarrow> None
      | Some d \<Rightarrow> map_option (\<lambda>ds. d # ds) (edges_along h es (b # rest)))"
| "edges_along h es path = Some []"

definition load_edges ::
    "('id \<Rightarrow> size_t) \<Rightarrow> ('id, 'e) graph_c \<Rightarrow> 'id node_list_t
       \<Rightarrow> 'e list option \<times> ('id, 'e) graph_c" where
  "load_edges h g path =
     (if length path < 2 then (None, g) else (edges_along h (edge_storage g) path, g))"

text \<open>
  \<open>contains_cycles\<close>: \<open>cycles_nbrs\<close> is the inner loop over \<open>node.out\<close>, \<open>cycles_nodes\<close> the
  outer loop over \<open>_node_storage\<close> in key order. The result \<open>True\<close> of a loop is the early
  \<open>return true\<close>.
\<close>

fun cycles_nbrs ::
    "('id \<Rightarrow> size_t) \<Rightarrow> ('id, 'e) graph_c \<Rightarrow> 'id \<Rightarrow> 'id list \<Rightarrow> bool \<times> ('id, 'e) graph_c" where
  "cycles_nbrs h g x [] = (False, g)"
| "cycles_nbrs h g x (neighbor # rest) =
     (case trace h g neighbor x of
        (result, g1) \<Rightarrow>
          if result \<noteq> None then (True, g1\<lparr>contains_cycles_flag := True\<rparr>)
          else cycles_nbrs h g1 x rest)"

fun cycles_nodes ::
    "('id \<Rightarrow> size_t) \<Rightarrow> ('id, 'e) graph_c \<Rightarrow> 'id node_map \<Rightarrow> bool \<times> ('id, 'e) graph_c" where
  "cycles_nodes h g [] = (contains_cycles_flag g, g)"
| "cycles_nodes h g (entry # rest) =
     (case cycles_nbrs h g (fst entry) (out (snd entry)) of
        (stop, g1) \<Rightarrow> if stop then (True, g1) else cycles_nodes h g1 rest)"

definition contains_cycles ::
    "('id \<Rightarrow> size_t) \<Rightarrow> ('id, 'e) graph_c \<Rightarrow> bool \<times> ('id, 'e) graph_c" where
  "contains_cycles h g =
     (if contains_cycles_flag g then (True, g) else cycles_nodes h g (node_storage g))"


subsection \<open>Predicates on stores\<close>

text \<open>A node is stored and its marker is clear.\<close>

definition clear_at :: "'id node_map \<Rightarrow> 'id \<Rightarrow> bool" where
  "clear_at ns x = (case map_of ns x of None \<Rightarrow> False | Some n \<Rightarrow> \<not> marked n)"

definition unmarked_count :: "'id node_map \<Rightarrow> nat" where
  "unmarked_count ns = length (filter (\<lambda>p. \<not> marked (snd p)) ns)"

text \<open>
  The graph that the \<open>out\<close> lists describe: \<open>edge_of ns a b\<close> says that \<open>b\<close> is in the
  \<open>out\<close> list of the stored node \<open>a\<close>, a \<open>walk\<close> is a path whose consecutive nodes are
  joined by such edges. A \<open>good_path\<close> from \<open>a\<close> to \<open>b\<close> is a non-empty walk with these
  ends, a \<open>clear_path\<close> one that only visits stored, unmarked nodes.
\<close>

definition edge_of :: "'id node_map \<Rightarrow> 'id \<Rightarrow> 'id \<Rightarrow> bool" where
  "edge_of ns a b = (case map_of ns a of None \<Rightarrow> False | Some n \<Rightarrow> b \<in> set (out n))"

fun walk :: "'id node_map \<Rightarrow> 'id list \<Rightarrow> bool" where
  "walk ns (a # b # rest) = (edge_of ns a b \<and> walk ns (b # rest))"
| "walk ns path = True"

definition good_path :: "'id node_map \<Rightarrow> 'id \<Rightarrow> 'id \<Rightarrow> 'id list \<Rightarrow> bool" where
  "good_path ns a b q \<longleftrightarrow> q \<noteq> [] \<and> hd q = a \<and> last q = b \<and> walk ns q"

definition clear_path :: "'id node_map \<Rightarrow> 'id \<Rightarrow> 'id \<Rightarrow> 'id list \<Rightarrow> bool" where
  "clear_path ns a b q \<longleftrightarrow> good_path ns a b q \<and> (\<forall>x\<in>set q. clear_at ns x)"

subsection \<open>Invariants of a graph object\<close>

definition all_clear :: "'id node_map \<Rightarrow> bool" where
  "all_clear ns = (\<forall>p\<in>set ns. \<not> marked (snd p))"

text \<open>
  Every element of an \<open>out\<close> list is stored, and the edge it stands for has its key in
  \<open>_edge_storage\<close>.
\<close>

definition wf_store :: "('id \<Rightarrow> size_t) \<Rightarrow> ('id, 'e) graph_c \<Rightarrow> bool" where
  "wf_store h g =
     (\<forall>p\<in>set (node_storage g). \<forall>b\<in>set (out (snd p)).
        map_of (node_storage g) b \<noteq> None \<and> edge_storage g (merge_ids h (fst p) b) \<noteq> None)"

text \<open>
  Every cache entry holds what \<open>find_path\<close> returns on the present store for some pair of stored
  identifiers with the key of the entry.
\<close>

definition genuine :: "('id \<Rightarrow> size_t) \<Rightarrow> 'id node_map \<Rightarrow> size_t \<times> 'id node_list_t \<Rightarrow> bool" where
  "genuine h ns e =
     (\<exists>a\<in>set (map fst ns). \<exists>b\<in>set (map fst ns).
        fst e = merge_ids h a b \<and> find_path ns a b [] = (True, snd e, ns))"

definition cache_ok :: "('id \<Rightarrow> size_t) \<Rightarrow> ('id, 'e) graph_c \<Rightarrow> bool" where
  "cache_ok h g = (\<forall>e\<in>set (cache g). genuine h (node_storage g) e)"

definition graph_inv :: "('id \<Rightarrow> size_t) \<Rightarrow> ('id, 'e) graph_c \<Rightarrow> bool" where
  "graph_inv h g \<longleftrightarrow>
     distinct (map fst (node_storage g)) \<and> all_clear (node_storage g) \<and>
     wf_store h g \<and> cache_ok h g"

text \<open>
  Some edge \<open>a \<rightarrow> b\<close> of the store closes a cycle: the tracer finds a way back from
  \<open>b\<close> to \<open>a\<close>.
\<close>

definition has_cycle :: "'id node_map \<Rightarrow> bool" where
  "has_cycle ns = (\<exists>a b. edge_of ns a b \<and> fst (find_path ns b a []))"

text \<open>
  The cache entry under the merged key of \<open>(a, b)\<close>, if there is one, is a path from \<open>a\<close>
  to \<open>b\<close>.
\<close>

definition own_entry :: "('id \<Rightarrow> size_t) \<Rightarrow> ('id, 'e) graph_c \<Rightarrow> 'id \<Rightarrow> 'id \<Rightarrow> bool" where
  "own_entry h g a b =
     (case map_of (cache g) (merge_ids h a b) of
        None \<Rightarrow> True
      | Some p \<Rightarrow> hd p = a \<and> last p = b)"

text \<open>
  The states a graph object can be in: those that the public operations produce from a
  freshly constructed graph. (\<open>load_edges\<close> returns the state it was given, and
  \<open>build_from\<close> is a sequence of \<open>add_node\<close> and \<open>add_edge\<close>.)
\<close>

inductive reachable :: "('id::linorder \<Rightarrow> size_t) \<Rightarrow> ('id, 'e) graph_c \<Rightarrow> bool"
  for h :: "'id \<Rightarrow> size_t"
where
  r_new: "reachable h (graph_c_with enabled)"
| r_add_node: "reachable h g \<Longrightarrow> reachable h (snd (add_node g x))"
| r_add_edge: "reachable h g \<Longrightarrow> reachable h (snd (add_edge h g a b d))"
| r_clear_cache: "reachable h g \<Longrightarrow> reachable h (clear_cache g)"
| r_toggle_cache: "reachable h g \<Longrightarrow> reachable h (toggle_cache enabled g)"
| r_optimize_trace: "reachable h g \<Longrightarrow> reachable h (snd (optimize_trace g))"
| r_trace: "reachable h g \<Longrightarrow> reachable h (snd (trace h g a b))"
| r_contains_cycles: "reachable h g \<Longrightarrow> reachable h (snd (contains_cycles h g))"

text \<open>The two mutations of the graph, and a sequence of them applied in order.\<close>

datatype ('id, 'e) mutation = Add_node 'id | Add_edge 'id 'id 'e

fun mutate ::
    "('id::linorder \<Rightarrow> size_t) \<Rightarrow> ('id, 'e) graph_c \<Rightarrow> ('id, 'e) mutation \<Rightarrow> ('id, 'e) graph_c" where
  "mutate h g (Add_node x) = snd (add_node g x)"
| "mutate h g (Add_edge a b d) = snd (add_edge h g a b d)"

definition mutations ::
    "('id::linorder \<Rightarrow> size_t) \<Rightarrow> ('id, 'e) graph_c \<Rightarrow> ('id, 'e) mutation list
       \<Rightarrow> ('id, 'e) graph_c" where
  "mutations h g ms = foldl (mutate h) g ms"

text \<open>
  Every consecutive pair of a path is an edge of the graph with its key in
  \<open>_edge_storage\<close>.
\<close>

fun pairs_stored :: "('id \<Rightarrow> size_t) \<Rightarrow> ('id, 'e) graph_c \<Rightarrow> 'id node_list_t \<Rightarrow> bool" where
  "pairs_stored h g (a # b # rest) =
     (edge_of (node_storage g) a b \<and> edge_storage g (merge_ids h a b) \<noteq> None \<and>
      pairs_stored h g (b # rest))"
| "pairs_stored h g path = True"

text \<open>Two states that differ at most in the cache and in the flag of \<open>contains_cycles\<close>.\<close>

definition same_graph :: "('id, 'e) graph_c \<Rightarrow> ('id, 'e) graph_c \<Rightarrow> bool" where
  "same_graph g g' \<longleftrightarrow>
     node_storage g' = node_storage g \<and> edge_storage g' = edge_storage g \<and>
     cache_enabled g' = cache_enabled g \<and> average_path_len g' = average_path_len g"

subsection \<open>Example graphs\<close>

text \<open>
  A hash function for the examples with names of one capital letter: the letter number
  \<open>i\<close> is hashed to \<open>4 ^ i\<close>, so that the merged key of a pair of letters \<open>(i, j)\<close> has
  exactly the bits \<open>2 * i\<close> and \<open>2 * j + 1\<close> set and determines the pair.
\<close>

definition letter_hash :: "string \<Rightarrow> size_t" where
  "letter_hash s = (case s of [] \<Rightarrow> 0 | c # _ \<Rightarrow> push_bit (2 * (of_char c - 65)) 1)"

text \<open>The graph of the example program and of \<open>graph_six\<close> in the tests.\<close>

definition edge :: "'id \<Rightarrow> 'id \<Rightarrow> 'e \<Rightarrow> ('id, 'e) edge_s" where
  "edge a b d = \<lparr>from_id = a, to_id = b, data = d\<rparr>"

definition graph_six :: "(string, string) source_s" where
  "graph_six =
     \<lparr>nodes = [''A'', ''B'', ''C'', ''D'', ''E'', ''F'', ''G'', ''H'', ''I''],
      edges = [edge ''A'' ''F'' ''A->F'', edge ''A'' ''D'' ''A->D'', edge ''A'' ''B'' ''A->B'',
               edge ''D'' ''A'' ''D->A'', edge ''D'' ''F'' ''D->F'', edge ''F'' ''G'' ''F->G'',
               edge ''G'' ''H'' ''G->H'', edge ''H'' ''E'' ''H->E'', edge ''E'' ''C'' ''E->C'',
               edge ''C'' ''B'' ''C->B'', edge ''B'' ''I'' ''B->I'', edge ''B'' ''E'' ''B->E'']\<rparr>"

text \<open>Two nodes and the edge \<open>A \<rightarrow> B\<close>.\<close>

definition graph_ab :: "(string, string) graph_c" where
  "graph_ab =
     snd (build_from letter_hash graph_c_default
            \<lparr>nodes = [''A'', ''B''], edges = [edge ''A'' ''B'' ''A->B'']\<rparr>)"

text \<open>The key of an edge of a \<open>source_s\<close>, and the node store after \<open>build_from\<close> on
  \<open>graph_six\<close>.\<close>

definition edge_key :: "('id \<Rightarrow> size_t) \<Rightarrow> ('id, 'e) edge_s \<Rightarrow> size_t" where
  "edge_key h e = merge_ids h (from_id e) (to_id e)"

definition graph_six_nodes :: "string node_map" where
  "graph_six_nodes =
     [(''A'', \<lparr>out = [''F'', ''D'', ''B''], marked = False\<rparr>),
      (''B'', \<lparr>out = [''I'', ''E''], marked = False\<rparr>),
      (''C'', \<lparr>out = [''B''], marked = False\<rparr>),
      (''D'', \<lparr>out = [''A'', ''F''], marked = False\<rparr>),
      (''E'', \<lparr>out = [''C''], marked = False\<rparr>),
      (''F'', \<lparr>out = [''G''], marked = False\<rparr>),
      (''G'', \<lparr>out = [''H''], marked = False\<rparr>),
      (''H'', \<lparr>out = [''E''], marked = False\<rparr>),
      (''I'', \<lparr>out = [], marked = False\<rparr>)]"

text \<open>
  Identifiers of 128 bits with a hash that keeps the low 64 bits (a hash of a type with
  more than \<open>2 ^ 64\<close> values sends two identifiers to one value, whichever it is); and
  identifiers of type \<open>std::size_t\<close> hashed to themselves, the usual \<open>std::hash\<close> of the
  integer types.
\<close>

definition low_bits_hash :: "128 word \<Rightarrow> size_t" where
  "low_bits_hash x = ucast x"

definition identity_hash :: "size_t \<Rightarrow> size_t" where
  "identity_hash x = x"

text \<open>\<open>graph_ab\<close> after \<open>trace(A, A)\<close> and \<open>trace(A, B)\<close>, with both paths in the cache.\<close>

definition graph_ab_cached :: "(string, string) graph_c" where
  "graph_ab_cached =
     snd (trace letter_hash (snd (trace letter_hash graph_ab ''A'' ''A'')) ''A'' ''B'')"

text \<open>The nodes \<open>0\<close> and \<open>2 ^ 64\<close> of 128 bits, and the same with the edge from the first
  to the second.\<close>

definition graph_wide :: "(128 word, string) graph_c" where
  "graph_wide = snd (add_nodes graph_c_default [0, 18446744073709551616])"

definition graph_wide_edge :: "(128 word, string) graph_c" where
  "graph_wide_edge = snd (add_edge low_bits_hash graph_wide 0 18446744073709551616 ''forth'')"

text \<open>The nodes \<open>A\<close> and \<open>B\<close> without an edge.\<close>

definition graph_ab_nodes_only :: "(string, string) graph_c" where
  "graph_ab_nodes_only = snd (add_nodes graph_c_default [''A'', ''B''])"

text \<open>The nodes \<open>A\<close> and \<open>B\<close> with the edges \<open>A \<rightarrow> B\<close> and \<open>B \<rightarrow> B\<close>, as in \<open>graph_two\<close> of
  the tests.\<close>

definition graph_loop :: "(string, string) graph_c" where
  "graph_loop =
     snd (build_from letter_hash graph_c_default
            \<lparr>nodes = [''A'', ''B''],
             edges = [edge ''A'' ''B'' ''A->B'', edge ''B'' ''B'' ''B->B'']\<rparr>)"

text \<open>
  Graphs over \<open>std::size_t\<close> identifiers with the cache filled by one \<open>trace\<close>. The merged
  key of the traced pair is also the key of another pair of stored identifiers:
  \<open>(3, 0)\<close> and \<open>(1, 1)\<close> have the key \<open>3\<close>, \<open>(0, 1)\<close> and \<open>(2, 0)\<close> the key \<open>2\<close>, \<open>(3, 1)\<close>
  and \<open>(1, 0)\<close> the key \<open>1\<close>.
\<close>

definition graph_key_3 :: "(size_t, string) graph_c" where
  "graph_key_3 =
     snd (trace identity_hash
            (snd (build_from identity_hash graph_c_default
                    \<lparr>nodes = [0, 1, 3], edges = [edge 3 0 ''3->0'']\<rparr>)) 3 0)"

definition graph_key_2 :: "(size_t, string) graph_c" where
  "graph_key_2 =
     snd (trace identity_hash
            (snd (build_from identity_hash graph_c_default
                    \<lparr>nodes = [0, 1, 2], edges = [edge 0 1 ''0->1'']\<rparr>)) 0 1)"

definition graph_key_1 :: "(size_t, string) graph_c" where
  "graph_key_1 =
     snd (trace identity_hash
            (snd (build_from identity_hash graph_c_default
                    \<lparr>nodes = [0, 1, 3], edges = [edge 0 1 ''0->1'', edge 3 1 ''3->1'']\<rparr>)) 3 1)"

text \<open>The nodes \<open>A\<close> and \<open>B\<close> with the edges \<open>A \<rightarrow> B\<close> and \<open>B \<rightarrow> A\<close>.\<close>

definition graph_cycle :: "(string, string) graph_c" where
  "graph_cycle =
     snd (build_from letter_hash graph_c_default
            \<lparr>nodes = [''A'', ''B''],
             edges = [edge ''A'' ''B'' ''A->B'', edge ''B'' ''A'' ''B->A'']\<rparr>)"

section \<open>Termination of the tracer\<close>

lemma map_entry_id: "map_of ns k = Some v \<Longrightarrow> f v = v \<Longrightarrow> AList.map_entry k f ns = ns"
  by (induction ns) auto

lemma map_entry_comp:
  "AList.map_entry k f (AList.map_entry k g ns) = AList.map_entry k (f \<circ> g) ns"
  by (induction ns) auto

lemma set_marked_present_id:
  "map_of ns x = Some n \<Longrightarrow> marked n = b \<Longrightarrow> set_marked x b ns = ns"
  unfolding set_marked_def by (rule map_entry_id) auto

lemma set_marked_twice: "set_marked x b (set_marked x c ns) = set_marked x b ns"
  unfolding set_marked_def map_entry_comp
  by (rule arg_cong[where f="\<lambda>f. AList.map_entry x f ns"]) auto

lemma map_of_set_marked:
  "map_of (set_marked x b ns) y =
     (if y = x then map_option (\<lambda>n. n\<lparr>marked := b\<rparr>) (map_of ns x) else map_of ns y)"
  by (simp add: set_marked_def AList.map_of_map_entry split: option.splits)

lemma clear_at_set_marked_True:
  "clear_at (set_marked x True ns) y \<longleftrightarrow> clear_at ns y \<and> y \<noteq> x"
  by (cases "map_of ns x"; cases "map_of ns y") (auto simp: clear_at_def map_of_set_marked)

lemma unmark_all_id: "\<forall>x\<in>set p. clear_at ns x \<Longrightarrow> unmark_all p ns = ns"
  unfolding unmark_all_def
  by (induction p) (auto simp: clear_at_def set_marked_present_id split: option.splits)

lemma smallest_loop_bound:
  "idx < i + length ps \<or> ps = [] \<Longrightarrow> idx \<le> i \<Longrightarrow>
     smallest_loop ps i idx s < i + length ps \<or> (ps = [] \<and> smallest_loop ps i idx s = idx)"
  by (induction ps i idx s rule: smallest_loop.induct) auto

lemma smallest_idx_less: "tp \<noteq> [] \<Longrightarrow> smallest_idx tp < length tp"
  using smallest_loop_bound[of 0 0 tp SIZE_MAX] by (auto simp: smallest_idx_def)

text \<open>
  Where \<open>find_path\<close> returns, it hands the store back as it received it, and the nodes it
  appended to the path are stored and unmarked. The recursion is nested (the store of the
  next neighbour is the result of the previous call), so this is proved on the domain of
  the function first; termination follows from it.
\<close>

lemma find_partial:
  "find_path_find_nbrs_dom (Inl (ns, from, to, path)) \<Longrightarrow>
     (case find_path ns from to path of (found, p, ns') \<Rightarrow>
        ns' = ns \<and>
        (if found then \<exists>q. p = path @ q \<and> (\<forall>x\<in>set q. clear_at ns x) else p = path))"
  "find_path_find_nbrs_dom (Inr (ns, to, nbrs, acc)) \<Longrightarrow>
     (case find_nbrs ns to nbrs acc of (tp, ns') \<Rightarrow>
        ns' = ns \<and> (\<exists>new. tp = acc @ new \<and> (\<forall>q\<in>set new. \<forall>x\<in>set q. clear_at ns x)))"
proof (induction ns "from" to path and ns to nbrs acc rule: find_path_find_nbrs.pinduct)
  case (1 ns "from" to path)
  show ?case
  proof (cases "map_of ns from")
    case None
    then show ?thesis using "1"(1) by (simp add: find_path.psimps)
  next
    case (Some node)
    show ?thesis
    proof (cases "marked node \<or> from = to")
      case True
      then show ?thesis using "1"(1) Some by (auto simp add: find_path.psimps clear_at_def)
    next
      case False
      obtain tp ns1 where r: "find_nbrs (set_marked from True ns) to (out node) [] = (tp, ns1)"
        by (cases "find_nbrs (set_marked from True ns) to (out node) []") auto
      from "1"(2)[OF Some] False r
      have ns1: "ns1 = set_marked from True ns"
        and cl: "\<forall>q\<in>set tp. \<forall>x\<in>set q. clear_at (set_marked from True ns) x"
        by auto
      have restore: "set_marked from False ns1 = ns"
        using Some False by (simp add: ns1 set_marked_twice set_marked_present_id)
      have cl': "\<forall>q\<in>set tp. \<forall>x\<in>set q. clear_at ns x"
        using cl by (simp add: clear_at_set_marked_True)
      have "tp \<noteq> [] \<Longrightarrow> tp ! smallest_idx tp \<in> set tp"
        by (simp add: smallest_idx_less)
      then show ?thesis
        using "1"(1) Some False r restore cl'
        by (auto simp add: find_path.psimps clear_at_def)
    qed
  qed
next
  case (2 ns to acc)
  then show ?case by (simp add: find_nbrs.psimps)
next
  case (3 ns to neighbor rest acc)
  obtain found cp ns1 where r: "find_path ns neighbor to [] = (found, cp, ns1)"
    by (cases "find_path ns neighbor to []") auto
  from "3"(2) r have ns1: "ns1 = ns"
    and cp: "if found then \<forall>x\<in>set cp. clear_at ns x else cp = []"
    by (auto split: if_splits)
  have um: "unmark_all cp ns1 = ns"
  proof (cases found)
    case True
    then show ?thesis using cp ns1 by (simp add: unmark_all_id)
  next
    case False
    then show ?thesis using cp ns1 by (simp add: unmark_all_def)
  qed
  from "3"(3)[OF r[symmetric] refl] um
  have "case find_nbrs ns to rest (if found then acc @ [cp] else acc) of
          (tp, ns') \<Rightarrow> ns' = ns \<and> (\<exists>new. tp = (if found then acc @ [cp] else acc) @ new \<and>
             (\<forall>q\<in>set new. \<forall>x\<in>set q. clear_at ns x))"
    by simp
  then show ?case
    using "3"(1) r um cp by (auto simp add: find_nbrs.psimps split: if_splits prod.splits)
qed

lemma find_partial_unmark:
  assumes "find_path_find_nbrs_dom (Inl (ns, n, to, []))" "find_path ns n to [] = (found, cp, ns1)"
  shows "unmark_all cp ns1 = ns"
proof -
  from find_partial(1)[OF assms(1)] assms(2)
  have ns1: "ns1 = ns" and cp: "if found then \<forall>x\<in>set cp. clear_at ns x else cp = []"
    by (auto split: if_splits)
  show ?thesis
  proof (cases found)
    case True
    then show ?thesis using cp ns1 by (simp add: unmark_all_id)
  next
    case False
    then show ?thesis using cp ns1 by (simp add: unmark_all_def)
  qed
qed

lemma unmarked_count_set_marked:
  "map_of ns x = Some n \<Longrightarrow> \<not> marked n \<Longrightarrow>
     unmarked_count (set_marked x True ns) < unmarked_count ns"
  by (induction ns) (auto simp: unmarked_count_def set_marked_def)

text \<open>
  Marking a node lowers the number of unmarked nodes, and each neighbour is searched in
  the store the loop started with.
\<close>

lemma find_path_find_nbrs_total: "find_path_find_nbrs_dom x"
proof -
  have "All find_path_find_nbrs_dom"
  proof (rule "find_path_find_nbrs.termination"
      [of "inv_image (less_than <*lex*> less_than <*lex*> less_than)
        (\<lambda>x. case x of
            Inl (ns, from, to, path) \<Rightarrow> (unmarked_count ns, 0::nat, 0::nat)
          | Inr (ns, to, nbrs, acc) \<Rightarrow> (unmarked_count ns, 1, length nbrs))"], goal_cases)
    case 1
    show ?case by (intro wf_inv_image wf_lex_prod wf_less_than)
  next
    case (2 ns "from" to path node)
    then show ?case by (simp add: unmarked_count_set_marked)
  next
    case (3 ns to neighbor rest acc)
    then show ?case by simp
  next
    case (4 ns to neighbor rest acc x y xa ya)
    have "unmark_all xa ya = ns"
      using 4 find_partial_unmark[of ns neighbor to x xa ya] by simp
    then show ?case by simp
  qed
  then show ?thesis ..
qed

termination find_path
  using find_path_find_nbrs_total by blast

declare find_path.simps [simp del]

section \<open>What the tracer computes\<close>

lemma find_result:
  assumes "find_path ns from to path = (found, p, ns')"
  shows "ns' = ns"
    and "found \<Longrightarrow> \<exists>q. p = path @ q \<and> (\<forall>x\<in>set q. clear_at ns x)"
    and "\<not> found \<Longrightarrow> p = path"
  using find_partial(1)[of ns "from" to path, OF find_path_find_nbrs_total] assms
  by (auto split: if_splits)

lemma find_nbrs_result:
  assumes "find_nbrs ns to nbrs acc = (tp, ns')"
  shows "ns' = ns" and "\<exists>new. tp = acc @ new \<and> (\<forall>q\<in>set new. \<forall>x\<in>set q. clear_at ns x)"
  using find_partial(2)[of ns to nbrs acc, OF find_path_find_nbrs_total] assms
  by auto

lemma find_store: "snd (snd (find_path ns from to path)) = ns"
  using find_result(1)[of ns "from" to path] by (cases "find_path ns from to path") auto

lemma find_nbrs_Cons:
  "find_nbrs ns to (neighbor # rest) acc =
     (case find_path ns neighbor to [] of
        (found, cp, ns1) \<Rightarrow> find_nbrs ns to rest (if found then acc @ [cp] else acc))"
proof -
  obtain found cp ns1 where r: "find_path ns neighbor to [] = (found, cp, ns1)"
    by (cases "find_path ns neighbor to []") auto
  have "unmark_all cp ns1 = ns"
    using find_partial_unmark[OF find_path_find_nbrs_total r] .
  then show ?thesis using r by simp
qed

lemma edge_of_set_marked [simp]: "edge_of (set_marked x b ns) = edge_of ns"
  by (auto simp: edge_of_def map_of_set_marked fun_eq_iff split: option.splits)

lemma walk_set_marked [simp]: "walk (set_marked x b ns) p = walk ns p"
  by (induction ns p rule: walk.induct) auto

lemma walk_Cons: "walk ns (a # p) \<longleftrightarrow> (p = [] \<or> (edge_of ns a (hd p) \<and> walk ns p))"
  by (cases p) auto

lemma walk_append_right: "walk ns (xs @ ys) \<Longrightarrow> walk ns ys"
  by (induction xs) (auto simp: walk_Cons split: if_splits)

text \<open>A path that \<open>find_path\<close> returns is a walk from \<open>from\<close> to \<open>to\<close>.\<close>


lemma find_sound_aux:
  "\<forall>found p ns'. find_path ns from to path = (found, p, ns') \<longrightarrow> found \<longrightarrow>
      (\<exists>q. p = path @ q \<and> good_path ns from to q)"
  "\<forall>tp ns'. find_nbrs ns to nbrs acc = (tp, ns') \<longrightarrow>
      (\<exists>new. tp = acc @ new \<and> (\<forall>q\<in>set new. \<exists>nb\<in>set nbrs. good_path ns nb to q))"
proof (induction ns "from" to path and ns to nbrs acc rule: find_path_find_nbrs.induct)
  case (1 ns "from" to path)
  show ?case
  proof (intro allI impI)
    fix found p ns'
    assume r: "find_path ns from to path = (found, p, ns')" and f: found
    from r f obtain node where node: "map_of ns from = Some node" "\<not> marked node"
      by (auto simp: find_path.simps split: option.splits if_splits)
    show "\<exists>q. p = path @ q \<and> good_path ns from to q"
    proof (cases "from = to")
      case True
      then show ?thesis using r node by (auto simp: find_path.simps good_path_def)
    next
      case False
      obtain tp ns1 where n: "find_nbrs (set_marked from True ns) to (out node) [] = (tp, ns1)"
        by (cases "find_nbrs (set_marked from True ns) to (out node) []") auto
      from "1"[OF node False] n
      have tp: "\<forall>q\<in>set tp. \<exists>nb\<in>set (out node). good_path ns nb to q"
        by (auto simp: good_path_def)
      from r f node False n have ne: "tp \<noteq> []"
        and p: "p = path @ [from] @ tp ! smallest_idx tp"
        by (auto simp: find_path.simps split: if_splits)
      let ?b = "tp ! smallest_idx tp"
      have "?b \<in> set tp" using ne by (simp add: smallest_idx_less)
      with tp obtain nb where nb: "nb \<in> set (out node)" "good_path ns nb to ?b" by auto
      have "good_path ns from to (from # ?b)"
        using nb node by (auto simp: good_path_def walk_Cons edge_of_def)
      then show ?thesis using p by auto
    qed
  qed
next
  case (2 ns to acc)
  then show ?case by simp
next
  case (3 ns to neighbor rest acc)
  show ?case
  proof (intro allI impI)
    fix tp ns'
    assume r: "find_nbrs ns to (neighbor # rest) acc = (tp, ns')"
    obtain found cp ns1 where c: "find_path ns neighbor to [] = (found, cp, ns1)"
      by (cases "find_path ns neighbor to []") auto
    have ns1: "ns1 = ns" and um: "unmark_all cp ns1 = ns"
      using find_result(1)[OF c] find_partial_unmark[OF find_path_find_nbrs_total c] by auto
    from r c um have r': "find_nbrs ns to rest (if found then acc @ [cp] else acc) = (tp, ns')"
      by simp
    from "3"(2)[OF c[symmetric] refl] um r'
    obtain new where new: "tp = (if found then acc @ [cp] else acc) @ new"
      "\<forall>q\<in>set new. \<exists>nb\<in>set rest. good_path ns nb to q"
      by auto
    have cp: "found \<Longrightarrow> good_path ns neighbor to cp"
      using "3"(1) c by auto
    show "\<exists>new. tp = acc @ new \<and> (\<forall>q\<in>set new. \<exists>nb\<in>set (neighbor # rest). good_path ns nb to q)"
    proof (cases found)
      case True
      then show ?thesis using new cp
        by (intro exI[of _ "cp # new"]) auto
    next
      case False
      then show ?thesis using new
        by (intro exI[of _ new]) auto
    qed
  qed
qed

lemma find_sound:
  "find_path ns from to [] = (True, p, ns') \<Longrightarrow> good_path ns from to p"
  using find_sound_aux(1)[of ns "from" to "[]"] by auto



lemma find_complete_aux:
  "\<forall>q. clear_path ns from to q \<longrightarrow> fst (find_path ns from to path)"
  "acc \<noteq> [] \<or> (\<exists>nb\<in>set nbrs. \<exists>q. clear_path ns nb to q) \<longrightarrow> fst (find_nbrs ns to nbrs acc) \<noteq> []"
proof (induction ns "from" to path and ns to nbrs acc rule: find_path_find_nbrs.induct)
  case (1 ns "from" to path)
  show ?case
  proof (intro allI impI)
    fix q assume q: "clear_path ns from to q"
    then have fq: "from \<in> set q" and cl: "\<forall>x\<in>set q. clear_at ns x"
      and lq: "last q = to" and wq: "walk ns q"
      by (auto simp: clear_path_def good_path_def)
    from fq cl obtain node where node: "map_of ns from = Some node" "\<not> marked node"
      by (auto simp: clear_at_def split: option.splits)
    show "fst (find_path ns from to path)"
    proof (cases "from = to")
      case True
      then show ?thesis using node by (simp add: find_path.simps)
    next
      case False
      from split_list_last[OF fq] obtain ys zs where yz: "q = ys @ from # zs" "from \<notin> set zs"
        by auto
      have w: "walk ns (from # zs)" using wq yz walk_append_right[of ns ys "from # zs"] by simp
      have zs: "zs \<noteq> []" using lq yz False by auto
      then have lz: "last zs = to" using lq yz by simp
      have e: "edge_of ns from (hd zs)" and wz: "walk ns zs"
        using w zs by (auto simp: walk_Cons)
      have nb: "hd zs \<in> set (out node)" using e node by (simp add: edge_of_def)
      have "clear_path (set_marked from True ns) (hd zs) to zs"
        using zs lz wz cl yz
        by (auto simp: clear_path_def good_path_def clear_at_set_marked_True)
      with "1"[OF node False] nb
      have "fst (find_nbrs (set_marked from True ns) to (out node) []) \<noteq> []"
        by blast
      then show ?thesis using node False
        by (auto simp: find_path.simps split: prod.splits)
    qed
  qed
next
  case (2 ns to acc)
  then show ?case by simp
next
  case (3 ns to neighbor rest acc)
  show ?case
  proof
    assume a: "acc \<noteq> [] \<or> (\<exists>nb\<in>set (neighbor # rest). \<exists>q. clear_path ns nb to q)"
    obtain found cp ns1 where c: "find_path ns neighbor to [] = (found, cp, ns1)"
      by (cases "find_path ns neighbor to []") auto
    have um: "unmark_all cp ns1 = ns"
      using find_partial_unmark[OF find_path_find_nbrs_total c] .
    let ?acc = "if found then acc @ [cp] else acc"
    have eq: "find_nbrs ns to (neighbor # rest) acc = find_nbrs ns to rest ?acc"
      using c um by simp
    have ih: "?acc \<noteq> [] \<or> (\<exists>nb\<in>set rest. \<exists>q. clear_path ns nb to q)
                \<longrightarrow> fst (find_nbrs ns to rest ?acc) \<noteq> []"
      using "3"(2)[OF c[symmetric] refl] um by simp
    have "?acc \<noteq> [] \<or> (\<exists>nb\<in>set rest. \<exists>q. clear_path ns nb to q)"
    proof (cases "\<exists>q. clear_path ns neighbor to q")
      case True
      then have found using "3"(1) c by auto
      then show ?thesis by simp
    next
      case False
      then show ?thesis using a by auto
    qed
    then show "fst (find_nbrs ns to (neighbor # rest) acc) \<noteq> []"
      using ih eq by simp
  qed
qed

lemma find_complete: "clear_path ns from to q \<Longrightarrow> fst (find_path ns from to path)"
  using find_complete_aux(1)[of ns "from" to path] by blast

lemma find_iff: "fst (find_path ns from to []) \<longleftrightarrow> (\<exists>q. clear_path ns from to q)"
proof
  assume f: "fst (find_path ns from to [])"
  then obtain p ns' where r: "find_path ns from to [] = (True, p, ns')"
    by (cases "find_path ns from to []") auto
  from find_sound[OF r] find_result(2)[OF r] show "\<exists>q. clear_path ns from to q"
    by (auto simp: clear_path_def)
qed (auto intro: find_complete)

section \<open>Stores under the operations\<close>

lemma map_of_insort_key:
  "map_of (insort_key fst (k, v) xs) = (map_of xs)(k \<mapsto> v)"
  by (induction xs) (auto simp: fun_eq_iff)

lemma map_of_emplace:
  "map_of (emplace x ns) y =
     (if y = x \<and> map_of ns x = None then Some \<lparr>out = [], marked = False\<rparr> else map_of ns y)"
  by (simp add: emplace_def map_of_insort_key)

lemma map_of_push_out:
  "map_of (push_out a b ns) y =
     (if y = a then map_option (\<lambda>n. n\<lparr>out := out n @ [b]\<rparr>) (map_of ns a) else map_of ns y)"
  by (simp add: push_out_def AList.map_of_map_entry split: option.splits)

lemma keys_emplace: "set (map fst (emplace x ns)) = insert x (set (map fst ns))"
  by (auto simp: emplace_def set_insort_key map_of_eq_None_iff)

lemma keys_push_out: "map fst (push_out a b ns) = map fst ns"
  unfolding push_out_def by (induction ns) auto

lemma distinct_emplace: "distinct (map fst ns) \<Longrightarrow> distinct (map fst (emplace x ns))"
  by (auto simp: emplace_def distinct_insort_key map_of_eq_None_iff)

lemma all_clear_emplace: "all_clear ns \<Longrightarrow> all_clear (emplace x ns)"
  by (auto simp: emplace_def all_clear_def set_insort_key)

lemma all_clear_push_out: "all_clear ns \<Longrightarrow> all_clear (push_out a b ns)"
  unfolding push_out_def all_clear_def by (induction ns) auto

lemma edge_of_emplace: "edge_of ns a b \<Longrightarrow> edge_of (emplace x ns) a b"
  by (auto simp: edge_of_def map_of_emplace split: option.splits)

lemma edge_of_push_out: "edge_of ns a b \<Longrightarrow> edge_of (push_out c d ns) a b"
  by (auto simp: edge_of_def map_of_push_out split: option.splits)

lemma clear_at_emplace: "clear_at ns y \<Longrightarrow> clear_at (emplace x ns) y"
  by (auto simp: clear_at_def map_of_emplace split: option.splits)

lemma clear_at_push_out: "clear_at (push_out c d ns) y = clear_at ns y"
  by (auto simp: clear_at_def map_of_push_out split: option.splits)

lemma all_clear_clear_at: "all_clear ns \<Longrightarrow> map_of ns x \<noteq> None \<Longrightarrow> clear_at ns x"
  by (auto simp: all_clear_def clear_at_def dest!: map_of_SomeD split: option.splits)

lemma walk_mono:
  "(\<And>a b. edge_of ns a b \<Longrightarrow> edge_of ns' a b) \<Longrightarrow> walk ns p \<Longrightarrow> walk ns' p"
  by (induction ns p rule: walk.induct) auto

lemma clear_path_mono:
  assumes "\<And>a b. edge_of ns a b \<Longrightarrow> edge_of ns' a b" "\<And>x. clear_at ns x \<Longrightarrow> clear_at ns' x"
    and "clear_path ns a b q"
  shows "clear_path ns' a b q"
  using assms walk_mono[of ns ns' q] by (auto simp: clear_path_def good_path_def)

lemma has_cycle_mono:
  assumes "\<And>a b. edge_of ns a b \<Longrightarrow> edge_of ns' a b" "\<And>x. clear_at ns x \<Longrightarrow> clear_at ns' x"
    and "has_cycle ns"
  shows "has_cycle ns'"
proof -
  from assms(3) obtain a b where ab: "edge_of ns a b" "fst (find_path ns b a [])"
    by (auto simp: has_cycle_def)
  then obtain q where "clear_path ns b a q" by (auto simp: find_iff)
  then have "clear_path ns' b a q" using assms(1,2) by (rule clear_path_mono[rotated 2])
  then have "fst (find_path ns' b a [])" by (auto simp: find_iff)
  then show ?thesis using ab(1) assms(1) by (auto simp: has_cycle_def)
qed

lemma has_cycle_emplace: "has_cycle ns \<Longrightarrow> has_cycle (emplace x ns)"
  by (rule has_cycle_mono[of ns]) (auto intro: edge_of_emplace clear_at_emplace)

lemma has_cycle_push_out: "has_cycle ns \<Longrightarrow> has_cycle (push_out a b ns)"
  by (rule has_cycle_mono[of ns]) (auto intro: edge_of_push_out simp: clear_at_push_out)


section \<open>The operations and the invariants\<close>

lemma trace_unfold:
  "trace h g from to =
     (if load_node g to = None \<or> load_node g from = None then (None, g)
      else
        (case (if cache_enabled g then map_of (cache g) (merge_ids h from to) else None) of
           Some hit \<Rightarrow> (Some hit, g)
         | None \<Rightarrow>
             (case find_path (node_storage g) from to [] of
                (found, result, ns) \<Rightarrow>
                  if \<not> found then (None, g)
                  else if cache_enabled g
                    then (Some result,
                          g\<lparr>cache := AList.update (merge_ids h from to) result (cache g)\<rparr>)
                    else (Some result, g))))"
proof -
  obtain found result ns where r: "find_path (node_storage g) from to [] = (found, result, ns)"
    by (cases "find_path (node_storage g) from to []") auto
  have "ns = node_storage g" using find_result(1)[OF r] .
  then show ?thesis using r by (auto simp: trace_def split: option.splits)
qed

lemma trace_frame:
  "node_storage (snd (trace h g a b)) = node_storage g"
  "edge_storage (snd (trace h g a b)) = edge_storage g"
  "cache_enabled (snd (trace h g a b)) = cache_enabled g"
  "contains_cycles_flag (snd (trace h g a b)) = contains_cycles_flag g"
  "average_path_len (snd (trace h g a b)) = average_path_len g"
  by (auto simp: trace_unfold split: option.splits prod.splits)

lemma trace_None_state: "fst (trace h g a b) = None \<Longrightarrow> snd (trace h g a b) = g"
  by (auto simp: trace_unfold split: option.splits prod.splits if_splits)

text \<open>What the tracer answers on a store, without a cache.\<close>

lemma trace_uncached:
  assumes "\<not> cache_enabled g \<or> map_of (cache g) (merge_ids h a b) = None"
  shows "fst (trace h g a b) =
     (if load_node g b = None \<or> load_node g a = None then None
      else case find_path (node_storage g) a b [] of (found, p, ns) \<Rightarrow> if found then Some p else None)"
  using assms by (auto simp: trace_unfold split: option.splits prod.splits)

lemma set_update_subset: "set (AList.update k v al) \<subseteq> insert (k, v) (set al)"
  by (induction al) auto

lemma cache_ok_trace:
  assumes "cache_ok h g"
  shows "cache_ok h (snd (trace h g a b))"
proof (cases "fst (trace h g a b) = None")
  case True
  then show ?thesis using assms by (simp add: trace_None_state)
next
  case False
  let ?ns = "node_storage g"
  show ?thesis
  proof (cases "load_node g b = None \<or> load_node g a = None")
    case True
    then show ?thesis using assms by (auto simp: trace_unfold)
  next
    case present: False
    then have keys: "a \<in> set (map fst ?ns)" "b \<in> set (map fst ?ns)"
      by (auto simp: load_node_def map_of_eq_None_iff)
    show ?thesis
    proof (cases "if cache_enabled g then map_of (cache g) (merge_ids h a b) else None")
      case (Some hit)
      then show ?thesis using assms present by (auto simp: trace_unfold)
    next
      case None
      obtain found p ns where r: "find_path ?ns a b [] = (found, p, ns)"
        by (cases "find_path ?ns a b []") auto
      have ns: "ns = ?ns" using find_result(1)[OF r] .
      show ?thesis
      proof (cases "found \<and> cache_enabled g")
        case False
        then show ?thesis using assms present None r by (auto simp: trace_unfold)
      next
        case True
        then have st: "snd (trace h g a b) = g\<lparr>cache := AList.update (merge_ids h a b) p (cache g)\<rparr>"
          using present None r by (auto simp: trace_unfold)
        have new: "genuine h ?ns (merge_ids h a b, p)"
          unfolding genuine_def using keys r ns True
          by (intro bexI[of _ a] bexI[of _ b]) auto
        show ?thesis
          unfolding st cache_ok_def
        proof
          fix e assume "e \<in> set (cache (g\<lparr>cache := AList.update (merge_ids h a b) p (cache g)\<rparr>))"
          then have "e = (merge_ids h a b, p) \<or> e \<in> set (cache g)"
            using set_update_subset[of "merge_ids h a b" p "cache g"] by auto
          then show "genuine h (node_storage (g\<lparr>cache := AList.update (merge_ids h a b) p (cache g)\<rparr>)) e"
            using new assms by (auto simp: cache_ok_def)
        qed
      qed
    qed
  qed
qed

lemma graph_inv_trace: "graph_inv h g \<Longrightarrow> graph_inv h (snd (trace h g a b))"
  unfolding graph_inv_def
  by (auto simp: trace_frame cache_ok_trace wf_store_def)


lemma set_map_entry:
  "p \<in> set (AList.map_entry k f xs) \<Longrightarrow> p \<in> set xs \<or> (\<exists>v. (k, v) \<in> set xs \<and> p = (k, f v))"
  by (induction xs) (auto split: if_splits)

lemma wf_store_cong:
  "node_storage g' = node_storage g \<Longrightarrow> edge_storage g' = edge_storage g \<Longrightarrow>
     wf_store h g' = wf_store h g"
  by (simp add: wf_store_def)

lemma graph_inv_cong:
  "node_storage g' = node_storage g \<Longrightarrow> edge_storage g' = edge_storage g \<Longrightarrow>
     cache g' = cache g \<or> cache g' = [] \<Longrightarrow> graph_inv h g \<Longrightarrow> graph_inv h g'"
  unfolding graph_inv_def using wf_store_cong[of g' g h]
  by (auto simp: cache_ok_def)

lemma graph_inv_new: "graph_inv h (graph_c_with enabled)"
  by (simp add: graph_inv_def graph_c_with_def all_clear_def wf_store_def cache_ok_def)

lemma graph_inv_clear_cache: "graph_inv h g \<Longrightarrow> graph_inv h (clear_cache g)"
  by (rule graph_inv_cong[of _ g]) (simp_all add: clear_cache_def)

lemma graph_inv_toggle_cache: "graph_inv h g \<Longrightarrow> graph_inv h (toggle_cache enabled g)"
  by (rule graph_inv_cong[of _ g]) (simp_all add: toggle_cache_def clear_cache_def)

lemma graph_inv_optimize_trace: "graph_inv h g \<Longrightarrow> graph_inv h (snd (optimize_trace g))"
  by (rule graph_inv_cong[of _ g]) (simp_all add: optimize_trace_def)

lemma graph_inv_flag: "graph_inv h g \<Longrightarrow> graph_inv h (g\<lparr>contains_cycles_flag := b\<rparr>)"
  by (rule graph_inv_cong[of _ g]) simp_all

lemma add_node_unfold:
  "add_node g x =
     (if map_of (node_storage g) x \<noteq> None then (False, g)
      else (True, g\<lparr>cache := [], node_storage := emplace x (node_storage g),
                    contains_cycles_flag := False\<rparr>))"
  by (simp add: add_node_def load_node_def clear_cache_def Let_def)

lemma add_edge_unfold:
  "add_edge h g a b d =
     (if map_of (node_storage g) b = None \<or> map_of (node_storage g) a = None
         \<or> edge_storage g (merge_ids h a b) \<noteq> None then (False, g)
      else (True, g\<lparr>cache := [], node_storage := push_out a b (node_storage g),
                    edge_storage := (edge_storage g)(merge_ids h a b \<mapsto> d),
                    contains_cycles_flag := False\<rparr>))"
  by (simp add: add_edge_def load_node_def clear_cache_def Let_def)

lemma graph_inv_add_node:
  assumes "graph_inv h g"
  shows "graph_inv h (snd (add_node g x))"
proof (cases "map_of (node_storage g) x \<noteq> None")
  case True
  then show ?thesis using assms by (simp add: add_node_unfold)
next
  case False
  let ?g = "g\<lparr>cache := [], node_storage := emplace x (node_storage g),
                    contains_cycles_flag := False\<rparr>"
  have old: "wf_store h g" using assms by (simp add: graph_inv_def)
  have wf: "wf_store h ?g"
    unfolding wf_store_def
  proof (intro ballI)
    fix p c assume p: "p \<in> set (node_storage ?g)" and c: "c \<in> set (out (snd p))"
    from p have "p = (x, \<lparr>out = [], marked = False\<rparr>) \<or> p \<in> set (node_storage g)"
      by (auto simp: emplace_def set_insort_key split: if_splits)
    with c have pin: "p \<in> set (node_storage g)" by auto
    from old pin c have "map_of (node_storage g) c \<noteq> None"
      and e: "edge_storage g (merge_ids h (fst p) c) \<noteq> None"
      unfolding wf_store_def by blast+
    then have "map_of (node_storage ?g) c \<noteq> None"
      by (simp add: map_of_emplace)
    with e show "map_of (node_storage ?g) c \<noteq> None \<and>
        edge_storage ?g (merge_ids h (fst p) c) \<noteq> None"
      by simp
  qed
  have "distinct (map fst (node_storage ?g))" "all_clear (node_storage ?g)" "cache_ok h ?g"
    using assms by (simp_all add: graph_inv_def distinct_emplace all_clear_emplace cache_ok_def)
  with wf have "graph_inv h ?g" unfolding graph_inv_def by blast
  then show ?thesis using False by (simp add: add_node_unfold)
qed

lemma graph_inv_add_edge:
  assumes "graph_inv h g"
  shows "graph_inv h (snd (add_edge h g a b d))"
proof (cases "map_of (node_storage g) b = None \<or> map_of (node_storage g) a = None
         \<or> edge_storage g (merge_ids h a b) \<noteq> None")
  case True
  then show ?thesis using assms by (simp add: add_edge_unfold)
next
  case False
  let ?g = "g\<lparr>cache := [], node_storage := push_out a b (node_storage g),
                    edge_storage := (edge_storage g)(merge_ids h a b \<mapsto> d),
                    contains_cycles_flag := False\<rparr>"
  have old: "wf_store h g" using assms by (simp add: graph_inv_def)
  have b: "map_of (node_storage g) b \<noteq> None" using False by simp
  have wf: "wf_store h ?g"
    unfolding wf_store_def
  proof (intro ballI)
    fix p c assume p: "p \<in> set (node_storage ?g)" and c: "c \<in> set (out (snd p))"
    from p have "p \<in> set (node_storage g) \<or>
        (\<exists>v. (a, v) \<in> set (node_storage g) \<and> p = (a, v\<lparr>out := out v @ [b]\<rparr>))"
      using set_map_entry[of p a _ "node_storage g"] by (simp add: push_out_def)
    then have "map_of (node_storage g) c \<noteq> None \<and>
        (edge_storage g (merge_ids h (fst p) c) \<noteq> None \<or> (fst p = a \<and> c = b))"
    proof
      assume "p \<in> set (node_storage g)"
      with old c show ?thesis unfolding wf_store_def by blast
    next
      assume "\<exists>v. (a, v) \<in> set (node_storage g) \<and> p = (a, v\<lparr>out := out v @ [b]\<rparr>)"
      then obtain v where v: "(a, v) \<in> set (node_storage g)" "p = (a, v\<lparr>out := out v @ [b]\<rparr>)"
        by blast
      from c v have "c \<in> set (out v) \<or> c = b" by auto
      then show ?thesis
      proof
        assume "c \<in> set (out v)"
        with old v(1) have "map_of (node_storage g) c \<noteq> None \<and>
            edge_storage g (merge_ids h (fst (a, v)) c) \<noteq> None"
          unfolding wf_store_def by fastforce
        then show ?thesis using v(2) by simp
      next
        assume "c = b"
        then show ?thesis using b v(2) by simp
      qed
    qed
    then show "map_of (node_storage ?g) c \<noteq> None \<and>
        edge_storage ?g (merge_ids h (fst p) c) \<noteq> None"
      by (auto simp: map_of_push_out)
  qed
  have "distinct (map fst (node_storage ?g))" "all_clear (node_storage ?g)" "cache_ok h ?g"
    using assms by (simp_all add: graph_inv_def keys_push_out all_clear_push_out cache_ok_def)
  with wf have "graph_inv h ?g" unfolding graph_inv_def by blast
  moreover have "snd (add_edge h g a b d) = ?g"
    using False by (auto simp: add_edge_unfold)
  ultimately show ?thesis by simp
qed

lemma same_graph_refl: "same_graph g g"
  by (simp add: same_graph_def)

lemma same_graph_trans: "same_graph g g1 \<Longrightarrow> same_graph g1 g2 \<Longrightarrow> same_graph g g2"
  by (simp add: same_graph_def)

lemma same_graph_trace: "same_graph g (snd (trace h g a b))"
  by (simp add: same_graph_def trace_frame)

lemma same_graph_flag: "same_graph g g1 \<Longrightarrow> same_graph g (g1\<lparr>contains_cycles_flag := b\<rparr>)"
  by (simp add: same_graph_def)

lemma cycles_nbrs_same: "same_graph g (snd (cycles_nbrs h g x nbrs))"
proof (induction nbrs arbitrary: g)
  case Nil
  show ?case by (simp add: same_graph_refl)
next
  case (Cons nb rest)
  obtain r g1 where t: "trace h g nb x = (r, g1)" by (cases "trace h g nb x") auto
  have g1: "same_graph g g1" using same_graph_trace[of g h nb x] t by simp
  show ?case
  proof (cases "r = None")
    case True
    then show ?thesis using t g1 Cons[of g1] by (auto intro: same_graph_trans)
  next
    case False
    then show ?thesis using t g1 by (auto intro: same_graph_flag)
  qed
qed

lemma cycles_nodes_same: "same_graph g (snd (cycles_nodes h g entries))"
proof (induction entries arbitrary: g)
  case Nil
  show ?case by (simp add: same_graph_refl)
next
  case (Cons e rest)
  obtain stop g1 where t: "cycles_nbrs h g (fst e) (out (snd e)) = (stop, g1)"
    by (cases "cycles_nbrs h g (fst e) (out (snd e))") auto
  have g1: "same_graph g g1" using cycles_nbrs_same[of g h "fst e" "out (snd e)"] t by simp
  show ?case
  proof (cases stop)
    case True
    then show ?thesis using t g1 by simp
  next
    case False
    then show ?thesis using t g1 Cons[of g1] by (auto intro: same_graph_trans)
  qed
qed

lemma contains_cycles_same: "same_graph g (snd (contains_cycles h g))"
  by (simp add: contains_cycles_def same_graph_refl cycles_nodes_same)

lemma cycles_nbrs_inv: "graph_inv h g \<Longrightarrow> graph_inv h (snd (cycles_nbrs h g x nbrs))"
proof (induction nbrs arbitrary: g)
  case Nil
  then show ?case by simp
next
  case (Cons nb rest)
  obtain r g1 where t: "trace h g nb x = (r, g1)" by (cases "trace h g nb x") auto
  have g1: "graph_inv h g1" using graph_inv_trace[OF Cons.prems, of nb x] t by simp
  show ?case
  proof (cases "r = None")
    case True
    then show ?thesis using t Cons.IH[OF g1] by simp
  next
    case False
    then show ?thesis using t g1 by (simp add: graph_inv_flag)
  qed
qed

lemma cycles_nodes_inv: "graph_inv h g \<Longrightarrow> graph_inv h (snd (cycles_nodes h g entries))"
proof (induction entries arbitrary: g)
  case Nil
  then show ?case by simp
next
  case (Cons e rest)
  obtain stop g1 where t: "cycles_nbrs h g (fst e) (out (snd e)) = (stop, g1)"
    by (cases "cycles_nbrs h g (fst e) (out (snd e))") auto
  have g1: "graph_inv h g1" using cycles_nbrs_inv[OF Cons.prems, of "fst e" "out (snd e)"] t by simp
  show ?case
  proof (cases stop)
    case True
    then show ?thesis using t g1 by simp
  next
    case False
    then show ?thesis using t Cons.IH[OF g1] by simp
  qed
qed

lemma graph_inv_contains_cycles: "graph_inv h g \<Longrightarrow> graph_inv h (snd (contains_cycles h g))"
  by (simp add: contains_cycles_def cycles_nodes_inv)

lemma reachable_inv: "reachable h g \<Longrightarrow> graph_inv h g"
proof (induction rule: reachable.induct)
  case (r_new enabled)
  show ?case by (rule graph_inv_new)
next
  case (r_add_node g x)
  then show ?case by (simp add: graph_inv_add_node)
next
  case (r_add_edge g a b d)
  then show ?case by (simp add: graph_inv_add_edge)
next
  case (r_clear_cache g)
  then show ?case by (simp add: graph_inv_clear_cache)
next
  case (r_toggle_cache g enabled)
  then show ?case by (simp add: graph_inv_toggle_cache)
next
  case (r_optimize_trace g)
  then show ?case by (simp add: graph_inv_optimize_trace)
next
  case (r_trace g a b)
  then show ?case by (simp add: graph_inv_trace)
next
  case (r_contains_cycles g)
  then show ?case by (simp add: graph_inv_contains_cycles)
qed

section \<open>Evaluating the operations\<close>

lemma add_edges_success:
  assumes "distinct (map (edge_key h) es)"
    and "\<forall>e\<in>set es. edge_storage g (edge_key h e) = None"
    and "\<forall>e\<in>set es. map_of (node_storage g) (from_id e) \<noteq> None \<and>
                      map_of (node_storage g) (to_id e) \<noteq> None"
  shows "fst (add_edges h g es) \<and>
         node_storage (snd (add_edges h g es)) =
           fold (\<lambda>e. push_out (from_id e) (to_id e)) es (node_storage g) \<and>
         (\<forall>k. edge_storage (snd (add_edges h g es)) k =
           (case map_of (map (\<lambda>e. (edge_key h e, data e)) es) k of
              Some d \<Rightarrow> Some d | None \<Rightarrow> edge_storage g k)) \<and>
         (cache g = [] \<longrightarrow> cache (snd (add_edges h g es)) = []) \<and>
         cache_enabled (snd (add_edges h g es)) = cache_enabled g"
  using assms
proof (induction es arbitrary: g)
  case Nil
  show ?case by simp
next
  case (Cons e es)
  let ?g = "g\<lparr>cache := [], node_storage := push_out (from_id e) (to_id e) (node_storage g),
                edge_storage := (edge_storage g)(edge_key h e \<mapsto> data e),
                contains_cycles_flag := False\<rparr>"
  have step: "add_edge h g (from_id e) (to_id e) (data e) = (True, ?g)"
    using Cons.prems(2,3) by (simp add: add_edge_unfold edge_key_def)
  have d': "distinct (map (edge_key h) es)" using Cons.prems(1) by simp
  have ne: "edge_key h x \<noteq> edge_key h e" if "x \<in> set es" for x
    using Cons.prems(1) that by (metis distinct.simps(2) image_eqI list.simps(9) set_map)
  then have f': "\<forall>x\<in>set es. edge_storage ?g (edge_key h x) = None"
    using Cons.prems(2) by simp
  have p': "\<forall>x\<in>set es. map_of (node_storage ?g) (from_id x) \<noteq> None \<and>
                    map_of (node_storage ?g) (to_id x) \<noteq> None"
    using Cons.prems(3) by (simp add: map_of_push_out)
  have eq: "add_edges h g (e # es) = add_edges h ?g es" using step by simp
  have fresh: "map_of (map (\<lambda>e. (edge_key h e, data e)) es) (edge_key h e) = None"
    using ne by (force simp: map_of_eq_None_iff)
  note ih = Cons.IH[OF d' f' p']
  have r1: "fst (add_edges h ?g es)" using ih by blast
  have r2: "node_storage (snd (add_edges h ?g es)) =
           fold (\<lambda>e. push_out (from_id e) (to_id e)) es (node_storage ?g)" using ih by blast
  have r3: "edge_storage (snd (add_edges h ?g es)) k =
           (case map_of (map (\<lambda>e. (edge_key h e, data e)) es) k of
              Some d \<Rightarrow> Some d | None \<Rightarrow> edge_storage ?g k)" for k using ih by blast
  have r4: "cache (snd (add_edges h ?g es)) = []" using ih by simp
  have r5: "cache_enabled (snd (add_edges h ?g es)) = cache_enabled ?g" using ih by blast
  have r3': "edge_storage (snd (add_edges h ?g es)) k =
           (case map_of (map (\<lambda>e. (edge_key h e, data e)) (e # es)) k of
              Some d \<Rightarrow> Some d | None \<Rightarrow> edge_storage g k)" for k
    using r3[of k] fresh by (auto split: option.splits)
  show ?case unfolding eq using r1 r2 r3' r4 r5 by simp
qed



text \<open>
  Unfolding rules for \<open>find_path\<close> that use that it hands the store back unchanged; with them
  the simplifier runs the tracer on a given store.
\<close>

lemma find_eval:
  "find_path ns from to path =
     (case map_of ns from of
        None \<Rightarrow> (False, path, ns)
      | Some node \<Rightarrow>
          if marked node then (False, path, ns)
          else if from = to then (True, path @ [from], ns)
          else (case fst (find_nbrs (set_marked from True ns) to (out node) []) of
                  [] \<Rightarrow> (False, path, ns)
                | p # ps \<Rightarrow> (True, path @ from # (p # ps) ! smallest_idx (p # ps), ns)))"
proof -
  have "snd (snd (find_path ns from to path)) = ns" by (rule find_store)
  moreover have "fst (find_path ns from to path) =
      (case map_of ns from of None \<Rightarrow> False
       | Some node \<Rightarrow> if marked node then False else if from = to then True
           else fst (find_nbrs (set_marked from True ns) to (out node) []) \<noteq> [])"
    by (simp add: find_path.simps split: option.splits prod.splits)
  moreover have "fst (snd (find_path ns from to path)) =
      (case map_of ns from of None \<Rightarrow> path
       | Some node \<Rightarrow> if marked node then path else if from = to then path @ [from]
           else (case fst (find_nbrs (set_marked from True ns) to (out node) []) of
                  [] \<Rightarrow> path
                | p # ps \<Rightarrow> path @ from # (p # ps) ! smallest_idx (p # ps)))"
    by (simp add: find_path.simps split: option.splits prod.splits list.splits)
  ultimately show ?thesis
    by (cases "find_path ns from to path") (auto split: option.splits list.splits)
qed

lemma find_nbrs_eval:
  "fst (find_nbrs ns to [] acc) = acc"
  "fst (find_nbrs ns to (nb # rest) acc) =
     (case find_path ns nb to [] of
        (found, cp, _) \<Rightarrow> fst (find_nbrs ns to rest (if found then acc @ [cp] else acc)))"
  by (simp_all del: find_nbrs.simps(2) add: find_nbrs_Cons split: prod.splits)

lemmas find_evals = find_eval find_nbrs_eval set_marked_def smallest_idx_def SIZE_MAX_def

lemma find_graph_six_A_I:
  "find_path graph_six_nodes ''A'' ''I'' [] = (True, [''A'', ''B'', ''I''], graph_six_nodes)"
  by (simp add: find_eval find_nbrs_eval graph_six_nodes_def set_marked_def smallest_idx_def SIZE_MAX_def
      del: find_nbrs.simps)



lemma add_nodes_graph_six:
  "add_nodes (graph_c_default :: (string, string) graph_c) (nodes graph_six) =
     (True, graph_c_default\<lparr>node_storage :=
        map (\<lambda>x. (x, \<lparr>out = [], marked = False\<rparr>)) (nodes graph_six)\<rparr>)"
  by (simp add: graph_six_def add_node_unfold graph_c_default_def graph_c_with_def emplace_def)



lemma graph_six_built_nodes:
  "fold (\<lambda>e. push_out (from_id e) (to_id e)) (edges graph_six)
     (map (\<lambda>x. (x, \<lparr>out = [], marked = False\<rparr>)) (nodes graph_six)) = graph_six_nodes"
  by (simp add: graph_six_def graph_six_nodes_def push_out_def edge_def)

lemmas build_evals = build_from_def add_node_unfold add_edge_unfold graph_c_default_def
  graph_c_with_def emplace_def push_out_def edge_def

lemma graph_ab_eq:
  "graph_ab = \<lparr>contains_cycles_flag = False,
     node_storage = [(''A'', \<lparr>out = [''B''], marked = False\<rparr>), (''B'', \<lparr>out = [], marked = False\<rparr>)],
     edge_storage = [9 \<mapsto> ''A->B''], cache_enabled = True, average_path_len = 0, cache = []\<rparr>"
  by (simp add: graph_ab_def build_evals merge_ids_def letter_hash_def)

lemma graph_ab_cached_eq:
  "graph_ab_cached = graph_ab\<lparr>cache := [(3, [''A'']), (9, [''A'', ''B''])]\<rparr>"
  by (simp add: graph_ab_cached_def graph_ab_eq trace_unfold load_node_def find_evals
      merge_ids_def letter_hash_def)

lemma xor_shift_swap:
  fixes x y :: "'a::len word"
  assumes "x XOR push_bit 1 y = y XOR push_bit 1 x"
  shows "x = y"
proof -
  have e: "bit (x XOR push_bit 1 y) n = bit (y XOR push_bit 1 x) n" for n
    using assms by (rule arg_cong)
  have "bit x n = bit y n" for n
  proof (induction n)
    case 0
    show ?case using e[of 0] by (simp only: bit_xor_iff bit_push_bit_iff) simp
  next
    case (Suc n)
    show ?case using e[of "Suc n"] Suc
      by (simp only: bit_xor_iff bit_push_bit_iff) (auto dest: bit_imp_le_length)
  qed
  then show ?thesis by (rule bit_eqI)
qed

lemma merge_ids_swap: "merge_ids h a b = merge_ids h b a \<longleftrightarrow> h a = h b"
  unfolding merge_ids_def using xor_shift_swap[of "h a" "h b"] by auto

lemma low_bits_hash_values:
  "low_bits_hash 0 = 0" "low_bits_hash 18446744073709551616 = 0"
  by (simp_all add: low_bits_hash_def)

lemma merge_ids_wide:
  "merge_ids low_bits_hash 0 18446744073709551616 = 0"
  "merge_ids low_bits_hash 18446744073709551616 0 = 0"
  by (simp_all add: merge_ids_def low_bits_hash_values)

lemma graph_wide_eq:
  "graph_wide = \<lparr>contains_cycles_flag = False,
     node_storage = [(0, \<lparr>out = [], marked = False\<rparr>),
                     (18446744073709551616, \<lparr>out = [], marked = False\<rparr>)],
     edge_storage = Map.empty, cache_enabled = True, average_path_len = 0, cache = []\<rparr>"
  by (simp add: graph_wide_def build_evals)

lemma graph_wide_edge_eq:
  "graph_wide_edge = \<lparr>contains_cycles_flag = False,
     node_storage = [(0, \<lparr>out = [18446744073709551616], marked = False\<rparr>),
                     (18446744073709551616, \<lparr>out = [], marked = False\<rparr>)],
     edge_storage = [0 \<mapsto> ''forth''], cache_enabled = True, average_path_len = 0, cache = []\<rparr>"
  by (simp add: graph_wide_edge_def graph_wide_eq build_evals merge_ids_wide)

lemma graph_ab_nodes_only_eq:
  "graph_ab_nodes_only = \<lparr>contains_cycles_flag = False,
     node_storage = [(''A'', \<lparr>out = [], marked = False\<rparr>), (''B'', \<lparr>out = [], marked = False\<rparr>)],
     edge_storage = Map.empty, cache_enabled = True, average_path_len = 0, cache = []\<rparr>"
  by (simp add: graph_ab_nodes_only_def build_evals)

section \<open>Paths that trace returns\<close>

lemma cache_hit_genuine:
  assumes "cache_ok h g" "map_of (cache g) k = Some p"
  shows "genuine h (node_storage g) (k, p)"
  using assms map_of_SomeD[OF assms(2)] by (auto simp: cache_ok_def)

lemma trace_Some_find:
  assumes "graph_inv h g" "fst (trace h g a b) = Some p"
  shows "\<exists>c d. c \<in> set (map fst (node_storage g)) \<and> d \<in> set (map fst (node_storage g)) \<and>
           merge_ids h a b = merge_ids h c d \<and>
           find_path (node_storage g) c d [] = (True, p, node_storage g)"
proof -
  let ?ns = "node_storage g"
  from assms(2) have present: "load_node g b \<noteq> None" "load_node g a \<noteq> None"
    by (auto simp: trace_unfold split: if_splits)
  then have keys: "a \<in> set (map fst ?ns)" "b \<in> set (map fst ?ns)"
    by (auto simp: load_node_def map_of_eq_None_iff)
  show ?thesis
  proof (cases "if cache_enabled g then map_of (cache g) (merge_ids h a b) else None")
    case (Some hit)
    then have hit: "map_of (cache g) (merge_ids h a b) = Some hit" by (auto split: if_splits)
    have "hit = p" using assms(2) present Some by (simp add: trace_unfold)
    have ok: "cache_ok h g" using assms(1) unfolding graph_inv_def by blast
    have "genuine h ?ns (merge_ids h a b, p)"
      using cache_hit_genuine[OF ok hit] \<open>hit = p\<close> by simp
    then show ?thesis unfolding genuine_def by auto
  next
    case None
    obtain found q ns where r: "find_path ?ns a b [] = (found, q, ns)"
      by (cases "find_path ?ns a b []") auto
    have ns: "ns = ?ns" using find_result(1)[OF r] .
    have "found \<and> q = p" using assms(2) present None r
      by (auto simp: trace_unfold split: if_splits)
    then show ?thesis using keys r ns by (intro exI[of _ a] exI[of _ b]) simp
  qed
qed

lemma edge_of_stored:
  assumes "wf_store h g" "edge_of (node_storage g) a b"
  shows "map_of (node_storage g) a \<noteq> None" "map_of (node_storage g) b \<noteq> None"
    "edge_storage g (merge_ids h a b) \<noteq> None"
proof -
  from assms(2) obtain n where n: "map_of (node_storage g) a = Some n" "b \<in> set (out n)"
    by (auto simp: edge_of_def split: option.splits)
  have mem: "(a, n) \<in> set (node_storage g)" using n(1) by (rule map_of_SomeD)
  have "\<forall>p\<in>set (node_storage g). \<forall>b\<in>set (out (snd p)).
        map_of (node_storage g) b \<noteq> None \<and> edge_storage g (merge_ids h (fst p) b) \<noteq> None"
    using assms(1) unfolding wf_store_def .
  from bspec[OF this mem] have "\<forall>b\<in>set (out n).
        map_of (node_storage g) b \<noteq> None \<and> edge_storage g (merge_ids h a b) \<noteq> None"
    by simp
  from bspec[OF this n(2)] show "map_of (node_storage g) b \<noteq> None"
    "edge_storage g (merge_ids h a b) \<noteq> None"
    by blast+
  show "map_of (node_storage g) a \<noteq> None" using n(1) by simp
qed

lemma walk_pairs_stored:
  "wf_store h g \<Longrightarrow> walk (node_storage g) p \<Longrightarrow> pairs_stored h g p"
proof (induction h g p rule: pairs_stored.induct)
  case (1 h g a b rest)
  then show ?case using edge_of_stored(3)[of h g a b] by simp
qed simp_all

lemma pairs_stored_edges_along:
  "pairs_stored h g p \<Longrightarrow>
     \<exists>es. edges_along h (edge_storage g) p = Some es \<and> length es = length p - 1"
  by (induction h g p rule: pairs_stored.induct) auto

lemma pairs_stored_cong:
  "node_storage g' = node_storage g \<Longrightarrow> edge_storage g' = edge_storage g \<Longrightarrow>
     pairs_stored h g' p = pairs_stored h g p"
  by (induction h g p rule: pairs_stored.induct) auto

lemma reachable_add_nodes: "reachable h g \<Longrightarrow> reachable h (snd (add_nodes g xs))"
proof (induction xs arbitrary: g)
  case Nil
  then show ?case by simp
next
  case (Cons x xs)
  obtain ok g1 where r: "add_node g x = (ok, g1)" by (cases "add_node g x") auto
  have "reachable h g1" using reachable.r_add_node[OF Cons.prems, of x] r by simp
  then show ?case using Cons.IH[of g1] r by simp
qed

lemma reachable_add_edges: "reachable h g \<Longrightarrow> reachable h (snd (add_edges h g es))"
proof (induction es arbitrary: g)
  case Nil
  then show ?case by simp
next
  case (Cons e es)
  obtain ok g1 where r: "add_edge h g (from_id e) (to_id e) (data e) = (ok, g1)"
    by (cases "add_edge h g (from_id e) (to_id e) (data e)") auto
  have "reachable h g1"
    using reachable.r_add_edge[OF Cons.prems, of "from_id e" "to_id e" "data e"] r by simp
  then show ?case using Cons.IH[of g1] r by simp
qed

lemma reachable_build_from: "reachable h g \<Longrightarrow> reachable h (snd (build_from h g source))"
proof -
  assume g: "reachable h g"
  obtain ok g1 where r: "add_nodes g (nodes source) = (ok, g1)"
    by (cases "add_nodes g (nodes source)") auto
  have "reachable h g1" using reachable_add_nodes[OF g, of "nodes source"] r by simp
  then show ?thesis using reachable_add_edges[of h g1 "edges source"] r
    by (simp add: build_from_def)
qed

lemma reachable_mutations: "reachable h g \<Longrightarrow> reachable h (mutations h g ms)"
  unfolding mutations_def
proof (induction ms arbitrary: g)
  case Nil
  then show ?case by simp
next
  case (Cons m ms)
  have "reachable h (mutate h g m)"
    using Cons.prems by (cases m) (auto intro: reachable.intros)
  then show ?case using Cons.IH by simp
qed

lemma reachable_graph_ab: "reachable letter_hash graph_ab"
  unfolding graph_ab_def graph_c_default_def
  by (intro reachable_build_from reachable.r_new)

lemma graph_loop_eq:
  "graph_loop = \<lparr>contains_cycles_flag = False,
     node_storage = [(''A'', \<lparr>out = [''B''], marked = False\<rparr>),
                     (''B'', \<lparr>out = [''B''], marked = False\<rparr>)],
     edge_storage = [9 \<mapsto> ''A->B'', 12 \<mapsto> ''B->B''],
     cache_enabled = True, average_path_len = 0, cache = []\<rparr>"
  by (simp add: graph_loop_def build_evals merge_ids_def letter_hash_def)

lemma reachable_graph_loop: "reachable letter_hash graph_loop"
  unfolding graph_loop_def graph_c_default_def
  by (intro reachable_build_from reachable.r_new)

section \<open>The cache\<close>

lemma find_self:
  "clear_at ns x \<Longrightarrow> find_path ns x x path = (True, path @ [x], ns)"
  by (auto simp: find_path.simps clear_at_def split: option.splits)

text \<open>
  Where the cache entry under the key of the query, if there is one, is a path between the nodes of
  the query, \<open>trace\<close> returns what the tracer computes on the present store.
\<close>

lemma trace_value:
  assumes "graph_inv h g" "own_entry h g a b"
  shows "fst (trace h g a b) =
     (if load_node g b = None \<or> load_node g a = None then None
      else case find_path (node_storage g) a b [] of (found, p, ns) \<Rightarrow> if found then Some p else None)"
proof (cases "cache_enabled g \<and> map_of (cache g) (merge_ids h a b) \<noteq> None \<and>
    load_node g b \<noteq> None \<and> load_node g a \<noteq> None")
  case False
  then show ?thesis
    by (auto simp: trace_unfold split: option.splits prod.splits)
next
  case True
  then obtain hit where hit: "map_of (cache g) (merge_ids h a b) = Some hit" by auto
  have t: "fst (trace h g a b) = Some hit" using True hit by (simp add: trace_unfold)
  from trace_Some_find[OF assms(1) t] obtain c d
    where cd: "find_path (node_storage g) c d [] = (True, hit, node_storage g)"
    by blast
  have "good_path (node_storage g) c d hit" using cd by (rule find_sound)
  then have "hd hit = c" "last hit = d" by (simp_all add: good_path_def)
  moreover have "hd hit = a" "last hit = b"
    using assms(2) hit by (simp_all add: own_entry_def)
  ultimately have "a = c \<and> b = d" by simp
  then show ?thesis using t cd True by simp
qed

text \<open>
  An entry that is not such a path is not what the tracer computes: the path of the tracer
  starts at \<open>a\<close> and ends at \<open>b\<close>.
\<close>

lemma trace_value_only_own_entry:
  assumes "cache_enabled g" "load_node g a \<noteq> None" "load_node g b \<noteq> None"
    "fst (trace h g a b) =
       (case find_path (node_storage g) a b [] of (found, p, ns) \<Rightarrow> if found then Some p else None)"
  shows "own_entry h g a b"
proof (cases "map_of (cache g) (merge_ids h a b)")
  case None
  then show ?thesis by (simp add: own_entry_def)
next
  case (Some hit)
  have t: "fst (trace h g a b) = Some hit" using assms(1,2,3) Some by (simp add: trace_unfold)
  obtain found p ns where f: "find_path (node_storage g) a b [] = (found, p, ns)"
    by (cases "find_path (node_storage g) a b []") auto
  from assms(4) t f have fp: "found" "p = hit" by (auto split: if_splits)
  have "ns = node_storage g" using find_store[of "node_storage g" a b "[]"] f by simp
  then have "good_path (node_storage g) a b hit" using f fp find_sound[of "node_storage g" a b hit] by simp
  then show ?thesis using Some by (simp add: own_entry_def good_path_def)
qed

lemma trace_cache_transparent:
  assumes "reachable h g" "own_entry h g from to"
  shows "fst (trace h g from to) = fst (trace h (toggle_cache False g) from to) \<and>
         fst (trace h g from to) = fst (trace h (toggle_cache True g) from to) \<and>
         fst (trace h g from to) =
           (if load_node g to = None \<or> load_node g from = None then None
            else case find_path (node_storage g) from to [] of
                   (found, p, ns) \<Rightarrow> if found then Some p else None)"
proof -
  have inv: "graph_inv h g" using assms(1) by (rule reachable_inv)
  have v: "fst (trace h g from to) =
           (if load_node g to = None \<or> load_node g from = None then None
            else case find_path (node_storage g) from to [] of
                   (found, p, ns) \<Rightarrow> if found then Some p else None)"
    using inv assms(2) by (rule trace_value)
  have u: "fst (trace h (toggle_cache b g) from to) =
           (if load_node g to = None \<or> load_node g from = None then None
            else case find_path (node_storage g) from to [] of
                   (found, p, ns) \<Rightarrow> if found then Some p else None)" for b
    using trace_uncached[of "toggle_cache b g" h "from" to]
    by (simp add: toggle_cache_def clear_cache_def load_node_def)
  show ?thesis using v u by simp
qed

lemma trace_to_itself:
  assumes "reachable h g" "own_entry h g x x" "load_node g x \<noteq> None"
  shows "fst (trace h g x x) = Some [x]"
proof -
  have inv: "graph_inv h g" using assms(1) by (rule reachable_inv)
  then have "all_clear (node_storage g)" unfolding graph_inv_def by blast
  then have "clear_at (node_storage g) x"
    using assms(3) by (simp add: all_clear_clear_at load_node_def)
  then have "find_path (node_storage g) x x [] = (True, [x], node_storage g)"
    using find_self[of "node_storage g" x "[]"] by simp
  then show ?thesis
    using trace_value[OF inv assms(2), of] assms(3) by simp
qed

lemma graph_key_3_eq:
  "graph_key_3 = \<lparr>contains_cycles_flag = False,
     node_storage = [(0, \<lparr>out = [], marked = False\<rparr>), (1, \<lparr>out = [], marked = False\<rparr>),
                     (3, \<lparr>out = [0], marked = False\<rparr>)],
     edge_storage = [3 \<mapsto> ''3->0''],
     cache_enabled = True, average_path_len = 0, cache = [(3, [3, 0])]\<rparr>"
  by (simp add: graph_key_3_def build_evals merge_ids_def identity_hash_def trace_unfold
      load_node_def find_evals word_le_nat_alt)

lemma graph_key_2_eq:
  "graph_key_2 = \<lparr>contains_cycles_flag = False,
     node_storage = [(0, \<lparr>out = [1], marked = False\<rparr>), (1, \<lparr>out = [], marked = False\<rparr>),
                     (2, \<lparr>out = [], marked = False\<rparr>)],
     edge_storage = [2 \<mapsto> ''0->1''],
     cache_enabled = True, average_path_len = 0, cache = [(2, [0, 1])]\<rparr>"
  by (simp add: graph_key_2_def build_evals merge_ids_def identity_hash_def trace_unfold
      load_node_def find_evals word_le_nat_alt)

lemma reachable_graph_key_3: "reachable identity_hash graph_key_3"
  unfolding graph_key_3_def graph_c_default_def
  by (intro reachable.r_trace reachable_build_from reachable.r_new)

lemma reachable_graph_key_2: "reachable identity_hash graph_key_2"
  unfolding graph_key_2_def graph_c_default_def
  by (intro reachable.r_trace reachable_build_from reachable.r_new)

lemma reachable_graph_ab_cached: "reachable letter_hash graph_ab_cached"
  unfolding graph_ab_cached_def by (intro reachable.r_trace reachable_graph_ab)

text \<open>The two lemmas on a node with an edge to itself and on a filled cache.\<close>

lemma trace_to_itself_graph_loop:
  "edge_of (node_storage graph_loop) ''B'' ''B'' \<and>
   own_entry letter_hash (snd (trace letter_hash graph_loop ''A'' ''B'')) ''B'' ''B'' \<and>
   fst (trace letter_hash (snd (trace letter_hash graph_loop ''A'' ''B'')) ''B'' ''B'') = Some [''B'']"
proof -
  let ?g = "snd (trace letter_hash graph_loop ''A'' ''B'')"
  have g: "?g = graph_loop\<lparr>cache := [(9, [''A'', ''B''])]\<rparr>"
    by (simp add: graph_loop_eq trace_unfold load_node_def find_evals merge_ids_def
        letter_hash_def)
  have r: "reachable letter_hash ?g" by (intro reachable.r_trace reachable_graph_loop)
  have o: "own_entry letter_hash ?g ''B'' ''B''"
    unfolding g by (simp add: own_entry_def graph_loop_eq merge_ids_def letter_hash_def)
  have l: "load_node ?g ''B'' \<noteq> None" by (simp add: load_node_def trace_frame graph_loop_eq)
  have e: "edge_of (node_storage graph_loop) ''B'' ''B''"
    by (simp add: edge_of_def graph_loop_eq)
  show ?thesis using e o trace_to_itself[OF r o l] by simp
qed

lemma trace_cache_transparent_graph_ab_cached:
  "own_entry letter_hash graph_ab_cached ''A'' ''B'' \<and> cache graph_ab_cached \<noteq> [] \<and>
   fst (trace letter_hash graph_ab_cached ''A'' ''B'') = Some [''A'', ''B''] \<and>
   fst (trace letter_hash (toggle_cache False graph_ab_cached) ''A'' ''B'') = Some [''A'', ''B'']"
proof -
  have o: "own_entry letter_hash graph_ab_cached ''A'' ''B''"
    by (simp add: own_entry_def graph_ab_cached_eq graph_ab_eq merge_ids_def letter_hash_def)
  have t: "fst (trace letter_hash graph_ab_cached ''A'' ''B'') = Some [''A'', ''B'']"
    by (simp add: graph_ab_cached_eq graph_ab_eq trace_unfold load_node_def merge_ids_def
        letter_hash_def)
  have c: "cache graph_ab_cached \<noteq> []" by (simp add: graph_ab_cached_eq)
  show ?thesis
    using o t c trace_cache_transparent[OF reachable_graph_ab_cached o]
    by simp
qed

section \<open>Cycles\<close>

lemma trace_succeeds:
  assumes "load_node g a \<noteq> None" "load_node g b \<noteq> None" "fst (find_path (node_storage g) a b [])"
  shows "fst (trace h g a b) \<noteq> None"
  using assms by (auto simp: trace_unfold split: option.splits prod.splits)

lemma cycles_nbrs_False_state:
  "\<not> fst (cycles_nbrs h g x nbrs) \<Longrightarrow> snd (cycles_nbrs h g x nbrs) = g"
proof (induction nbrs arbitrary: g)
  case Nil
  show ?case by simp
next
  case (Cons nb rest)
  obtain r g1 where t: "trace h g nb x = (r, g1)" by (cases "trace h g nb x") auto
  have r: "r = None" using Cons.prems t by (auto split: if_splits)
  then have "g1 = g" using trace_None_state[of h g nb x] t by simp
  then show ?case using Cons.IH[of g] Cons.prems t r by simp
qed

lemma cycles_nbrs_true:
  assumes "nb \<in> set nbrs" "load_node g x \<noteq> None" "load_node g nb \<noteq> None"
    "fst (find_path (node_storage g) nb x [])"
  shows "fst (cycles_nbrs h g x nbrs)"
  using assms(1)
proof (induction nbrs)
  case Nil
  then show ?case by simp
next
  case (Cons n rest)
  obtain r g1 where t: "trace h g n x = (r, g1)" by (cases "trace h g n x") auto
  show ?case
  proof (cases "r = None")
    case False
    then show ?thesis using t by simp
  next
    case True
    then have g1: "g1 = g" using trace_None_state[of h g n x] t by simp
    have "n \<noteq> nb" using trace_succeeds[OF assms(3,2,4), of h] t True by auto
    then have "nb \<in> set rest" using Cons.prems by simp
    then show ?thesis using Cons.IH t True g1 by simp
  qed
qed

lemma cycles_nodes_true:
  assumes "e \<in> set entries" "nb \<in> set (out (snd e))"
    "load_node g (fst e) \<noteq> None" "load_node g nb \<noteq> None"
    "fst (find_path (node_storage g) nb (fst e) [])"
  shows "fst (cycles_nodes h g entries)"
  using assms(1)
proof (induction entries)
  case Nil
  then show ?case by simp
next
  case (Cons e' rest)
  obtain stop g1 where t: "cycles_nbrs h g (fst e') (out (snd e')) = (stop, g1)"
    by (cases "cycles_nbrs h g (fst e') (out (snd e'))") auto
  show ?case
  proof (cases stop)
    case True
    then show ?thesis using t by simp
  next
    case False
    then have g1: "g1 = g" using cycles_nbrs_False_state[of h g "fst e'" "out (snd e')"] t by simp
    have "e' \<noteq> e" using cycles_nbrs_true[OF assms(2,3,4,5), of h] t False by auto
    then have "e \<in> set rest" using Cons.prems by simp
    then show ?thesis using Cons.IH t False g1 by simp
  qed
qed

lemma contains_cycles_true:
  assumes "graph_inv h g" "has_cycle (node_storage g)"
  shows "fst (contains_cycles h g)"
proof (cases "contains_cycles_flag g")
  case True
  then show ?thesis by (simp add: contains_cycles_def)
next
  case False
  from assms(2) obtain a b where ab: "edge_of (node_storage g) a b"
    "fst (find_path (node_storage g) b a [])" by (auto simp: has_cycle_def)
  then obtain n where n: "map_of (node_storage g) a = Some n" "b \<in> set (out n)"
    by (auto simp: edge_of_def split: option.splits)
  have wf: "wf_store h g" using assms(1) unfolding graph_inv_def by blast
  have e: "(a, n) \<in> set (node_storage g)" using n(1) by (rule map_of_SomeD)
  have "fst (cycles_nodes h g (node_storage g))"
    by (rule cycles_nodes_true[OF e])
      (use n ab edge_of_stored(2)[OF wf ab(1)] in \<open>simp_all add: load_node_def\<close>)
  then show ?thesis using False by (simp add: contains_cycles_def)
qed

text \<open>
  \<open>contains_cycles\<close> asks \<open>trace\<close> for a way back along every edge. Where no cache entry
  under the key of such a query belongs to another pair, and the flag is not set, the
  answer true means that the graph has a cycle.
\<close>

lemma cycles_nbrs_sound:
  assumes "graph_inv h g" "\<forall>nb\<in>set nbrs. own_entry h g nb x" "fst (cycles_nbrs h g x nbrs)"
  shows "\<exists>nb\<in>set nbrs. fst (find_path (node_storage g) nb x [])"
  using assms(2,3)
proof (induction nbrs)
  case Nil
  then show ?case by simp
next
  case (Cons n rest)
  obtain r g1 where t: "trace h g n x = (r, g1)" by (cases "trace h g n x") auto
  have own: "own_entry h g n x" using Cons.prems(1) by simp
  show ?case
  proof (cases "r = None")
    case True
    then have g1: "g1 = g" using trace_None_state[of h g n x] t by simp
    have "fst (cycles_nbrs h g x rest)" using Cons.prems(2) t True g1 by simp
    moreover have "\<forall>nb\<in>set rest. own_entry h g nb x" using Cons.prems(1) by simp
    ultimately show ?thesis using Cons.IH by simp
  next
    case False
    then have "fst (trace h g n x) \<noteq> None" using t by simp
    then have "fst (find_path (node_storage g) n x [])"
      unfolding trace_value[OF assms(1) own] by (auto split: if_splits prod.splits)
    then show ?thesis by simp
  qed
qed

lemma cycles_nodes_sound:
  assumes "graph_inv h g"
    "\<forall>e\<in>set entries. \<forall>nb\<in>set (out (snd e)). own_entry h g nb (fst e)"
    "fst (cycles_nodes h g entries)"
  shows "contains_cycles_flag g \<or>
         (\<exists>e\<in>set entries. \<exists>nb\<in>set (out (snd e)). fst (find_path (node_storage g) nb (fst e) []))"
  using assms(2,3)
proof (induction entries)
  case Nil
  then show ?case by simp
next
  case (Cons e rest)
  obtain stop g1 where t: "cycles_nbrs h g (fst e) (out (snd e)) = (stop, g1)"
    by (cases "cycles_nbrs h g (fst e) (out (snd e))") auto
  have own: "\<forall>nb\<in>set (out (snd e)). own_entry h g nb (fst e)" using Cons.prems(1) by simp
  show ?case
  proof (cases stop)
    case True
    then have "\<exists>nb\<in>set (out (snd e)). fst (find_path (node_storage g) nb (fst e) [])"
      using cycles_nbrs_sound[OF assms(1) own] t by simp
    then show ?thesis by simp
  next
    case False
    then have g1: "g1 = g" using cycles_nbrs_False_state[of h g "fst e" "out (snd e)"] t by simp
    then have "fst (cycles_nodes h g rest)" using Cons.prems(2) t False by simp
    moreover have "\<forall>e\<in>set rest. \<forall>nb\<in>set (out (snd e)). own_entry h g nb (fst e)"
      using Cons.prems(1) by simp
    ultimately have "contains_cycles_flag g \<or>
      (\<exists>e\<in>set rest. \<exists>nb\<in>set (out (snd e)). fst (find_path (node_storage g) nb (fst e) []))"
      using Cons.IH by simp
    then show ?thesis by auto
  qed
qed

lemma contains_cycles_sound:
  assumes "graph_inv h g"
    "\<forall>e\<in>set (node_storage g). \<forall>nb\<in>set (out (snd e)). own_entry h g nb (fst e)"
    "\<not> contains_cycles_flag g" "fst (contains_cycles h g)"
  shows "has_cycle (node_storage g)"
proof -
  have "fst (cycles_nodes h g (node_storage g))"
    using assms(3,4) by (simp add: contains_cycles_def)
  from cycles_nodes_sound[OF assms(1,2) this] assms(3) obtain e nb
    where e: "e \<in> set (node_storage g)" "nb \<in> set (out (snd e))"
      "fst (find_path (node_storage g) nb (fst e) [])" by blast
  have d: "distinct (map fst (node_storage g))" using assms(1) unfolding graph_inv_def by blast
  have "map_of (node_storage g) (fst e) = Some (snd e)"
    using map_of_is_SomeI[OF d, of "fst e" "snd e"] e(1) by simp
  then have "edge_of (node_storage g) (fst e) nb" using e(2) by (simp add: edge_of_def)
  then show ?thesis using e(3) unfolding has_cycle_def by blast
qed

lemma contains_cycles_sound_empty_cache:
  assumes "graph_inv h g" "cache g = []" "\<not> contains_cycles_flag g" "fst (contains_cycles h g)"
  shows "has_cycle (node_storage g)"
  using assms(1) _ assms(3,4)
  by (rule contains_cycles_sound) (simp add: own_entry_def assms(2))

lemma cycles_nbrs_flag:
  "contains_cycles_flag (snd (cycles_nbrs h g x nbrs)) \<Longrightarrow>
     contains_cycles_flag g \<or> fst (cycles_nbrs h g x nbrs)"
proof (induction nbrs arbitrary: g)
  case Nil
  then show ?case by simp
next
  case (Cons n rest)
  obtain r g1 where t: "trace h g n x = (r, g1)" by (cases "trace h g n x") auto
  have f: "contains_cycles_flag g1 = contains_cycles_flag g"
    using trace_frame(4)[of h g n x] t by simp
  show ?case
  proof (cases "r = None")
    case True
    then show ?thesis using Cons.IH[of g1] Cons.prems t f by simp
  next
    case False
    then show ?thesis using t by simp
  qed
qed

lemma cycles_nodes_flag:
  "contains_cycles_flag (snd (cycles_nodes h g entries)) \<Longrightarrow>
     contains_cycles_flag g \<or> fst (cycles_nodes h g entries)"
proof (induction entries arbitrary: g)
  case Nil
  then show ?case by simp
next
  case (Cons e rest)
  obtain stop g1 where t: "cycles_nbrs h g (fst e) (out (snd e)) = (stop, g1)"
    by (cases "cycles_nbrs h g (fst e) (out (snd e))") auto
  show ?case
  proof (cases stop)
    case True
    then show ?thesis using t by simp
  next
    case False
    then have g1: "g1 = g" using cycles_nbrs_False_state[of h g "fst e" "out (snd e)"] t by simp
    then show ?thesis using Cons.IH[of g] Cons.prems t False by simp
  qed
qed

lemma contains_cycles_flag_after:
  "contains_cycles_flag (snd (contains_cycles h g)) \<Longrightarrow>
     contains_cycles_flag g \<or> fst (contains_cycles h g)"
  using cycles_nodes_flag[of h g "node_storage g"]
  by (cases "contains_cycles_flag g") (auto simp: contains_cycles_def)

lemma has_cycle_mutate:
  "has_cycle (node_storage g) \<Longrightarrow> has_cycle (node_storage (mutate h g m))"
  by (cases m) (auto simp: add_node_unfold add_edge_unfold has_cycle_emplace has_cycle_push_out)

lemma has_cycle_mutations:
  "has_cycle (node_storage g) \<Longrightarrow> has_cycle (node_storage (mutations h g ms))"
  unfolding mutations_def
  by (induction ms arbitrary: g) (simp_all add: has_cycle_mutate)

lemma graph_key_1_eq:
  "graph_key_1 = \<lparr>contains_cycles_flag = False,
     node_storage = [(0, \<lparr>out = [1], marked = False\<rparr>), (1, \<lparr>out = [], marked = False\<rparr>),
                     (3, \<lparr>out = [1], marked = False\<rparr>)],
     edge_storage = [2 \<mapsto> ''0->1'', 1 \<mapsto> ''3->1''],
     cache_enabled = True, average_path_len = 0, cache = [(1, [3, 1])]\<rparr>"
  by (simp add: graph_key_1_def build_evals merge_ids_def identity_hash_def trace_unfold
      load_node_def find_evals word_le_nat_alt)

lemma reachable_graph_key_1: "reachable identity_hash graph_key_1"
  unfolding graph_key_1_def graph_c_default_def
  by (intro reachable.r_trace reachable_build_from reachable.r_new)

lemma graph_cycle_eq:
  "graph_cycle = \<lparr>contains_cycles_flag = False,
     node_storage = [(''A'', \<lparr>out = [''B''], marked = False\<rparr>),
                     (''B'', \<lparr>out = [''A''], marked = False\<rparr>)],
     edge_storage = [9 \<mapsto> ''A->B'', 6 \<mapsto> ''B->A''],
     cache_enabled = True, average_path_len = 0, cache = []\<rparr>"
  by (simp add: graph_cycle_def build_evals merge_ids_def letter_hash_def)

lemma reachable_graph_cycle: "reachable letter_hash graph_cycle"
  unfolding graph_cycle_def graph_c_default_def
  by (intro reachable_build_from reachable.r_new)

text \<open>
  A cycle stays: additions only add paths, the tracer finds a path wherever there is one,
  and \<open>contains_cycles\<close> answers true whenever the tracer finds a way back along some edge.
\<close>

lemma cycles_stay:
  assumes "reachable h g" "has_cycle (node_storage g)"
  shows "fst (contains_cycles h (mutations h g ms))"
proof -
  have c: "has_cycle (node_storage (mutations h g ms))"
    using assms(2) by (rule has_cycle_mutations)
  have "reachable h (mutations h g ms)" using assms(1) by (rule reachable_mutations)
  then have "graph_inv h (mutations h g ms)" by (rule reachable_inv)
  then show ?thesis using c by (rule contains_cycles_true)
qed

lemma cycles_stay_graph_cycle:
  "has_cycle (node_storage graph_cycle) \<and>
   fst (contains_cycles letter_hash
          (mutations letter_hash graph_cycle
             [Add_node ''C'', Add_edge ''B'' ''C'' ''B->C'', Add_node ''A'']))"
proof -
  have c: "fst (contains_cycles letter_hash graph_cycle)"
    by (simp add: graph_cycle_eq contains_cycles_def trace_unfold load_node_def find_evals)
  have i: "graph_inv letter_hash graph_cycle" using reachable_graph_cycle by (rule reachable_inv)
  have h: "has_cycle (node_storage graph_cycle)"
    using i _ _ c by (rule contains_cycles_sound_empty_cache) (simp_all add: graph_cycle_eq)
  show ?thesis using h cycles_stay[OF reachable_graph_cycle h] by simp
qed

text \<open>
  When \<open>add_edges\<close> returns true the merged keys of the edges were different from one
  another and from every key stored before: \<open>add_edge\<close> refuses a key that is stored.
\<close>

lemma add_edges_succeeded:
  "fst (add_edges h g es) \<Longrightarrow>
     distinct (map (edge_key h) es) \<and> (\<forall>e\<in>set es. edge_storage g (edge_key h e) = None)"
proof (induction es arbitrary: g)
  case Nil
  show ?case by simp
next
  case (Cons e es)
  let ?g = "g\<lparr>cache := [], node_storage := push_out (from_id e) (to_id e) (node_storage g),
                edge_storage := (edge_storage g)(edge_key h e \<mapsto> data e),
                contains_cycles_flag := False\<rparr>"
  obtain ok g1 where r: "add_edge h g (from_id e) (to_id e) (data e) = (ok, g1)"
    by (cases "add_edge h g (from_id e) (to_id e) (data e)") auto
  have ok: ok using Cons.prems r by (auto split: if_splits)
  then have free: "edge_storage g (edge_key h e) = None" and g1: "g1 = ?g"
    using r by (auto simp: add_edge_unfold edge_key_def split: if_splits)
  have "fst (add_edges h ?g es)" using Cons.prems r ok g1 by simp
  from Cons.IH[OF this]
  have d: "distinct (map (edge_key h) es)"
    and n: "\<forall>x\<in>set es. edge_storage ?g (edge_key h x) = None"
    by blast+
  have ne: "edge_key h x \<noteq> edge_key h e" if "x \<in> set es" for x
  proof
    assume "edge_key h x = edge_key h e"
    moreover have "edge_storage ?g (edge_key h x) = None" using n that by blast
    ultimately show False by simp
  qed
  have "\<forall>x\<in>set es. edge_storage g (edge_key h x) = None"
  proof
    fix x assume x: "x \<in> set es"
    have "edge_storage ?g (edge_key h x) = None" using n x by blast
    then show "edge_storage g (edge_key h x) = None" using ne[OF x] by simp
  qed
  moreover have "edge_key h e \<notin> edge_key h ` set es"
  proof
    assume "edge_key h e \<in> edge_key h ` set es"
    then obtain x where "x \<in> set es" "edge_key h e = edge_key h x" by blast
    then show False using ne[of x] by simp
  qed
  ultimately show ?case using d free by simp
qed

lemma graph_six_built: "fst (build_from letter_hash graph_c_default graph_six)"
proof -
  let ?g1 = "(graph_c_default :: (string, string) graph_c)\<lparr>node_storage :=
        map (\<lambda>x. (x, \<lparr>out = [], marked = False\<rparr>)) (nodes graph_six)\<rparr>"
  have d: "distinct (map (edge_key letter_hash) (edges graph_six))"
    by (simp add: graph_six_def edge_def edge_key_def merge_ids_def letter_hash_def)
  have e1: "\<forall>e\<in>set (edges graph_six). edge_storage ?g1 (edge_key letter_hash e) = None"
    by (simp add: graph_c_default_def graph_c_with_def)
  have e2: "\<forall>e\<in>set (edges graph_six). map_of (node_storage ?g1) (from_id e) \<noteq> None \<and>
                      map_of (node_storage ?g1) (to_id e) \<noteq> None"
    by (simp add: graph_six_def edge_def)
  show ?thesis
    using add_edges_success[OF d e1 e2] by (simp add: build_from_def add_nodes_graph_six)
qed

section \<open>The claims\<close>

text \<open>
  Claim C1, as stated: \<open>load_edges\<close> never fails on the path of a successful \<open>trace\<close>,
  the single-node path of \<open>from == to\<close> included. In the graph with the nodes \<open>A\<close>, \<open>B\<close>
  and the one edge \<open>A \<rightarrow> B\<close>, \<open>trace(A, A)\<close> returns \<open>[A]\<close> and \<open>load_edges\<close> fails on it:
  \<open>load_edges\<close> refuses every path of fewer than two nodes before it looks at an edge.
\<close>

theorem load_edges_single_node_counterexample:
  "\<not> edge_of (node_storage graph_ab) ''A'' ''A'' \<and>
   fst (trace letter_hash graph_ab ''A'' ''A'') = Some [''A''] \<and>
   fst (load_edges letter_hash (snd (trace letter_hash graph_ab ''A'' ''A'')) [''A'']) = None"
  by (simp add: graph_ab_eq trace_unfold load_node_def find_evals load_edges_def edge_of_def)

text \<open>
  Claim C1, amended: for every state of a graph object and every successful
  \<open>trace(from, to)\<close>, every consecutive pair of the returned path is an edge of the graph
  with its key in the edge store, and \<open>load_edges\<close> on that path succeeds, with one
  payload per pair, when the path has at least two nodes.
\<close>

theorem traced_path_has_stored_edges:
  assumes "reachable h g" "fst (trace h g from to) = Some p"
  shows "p \<noteq> [] \<and> pairs_stored h (snd (trace h g from to)) p \<and>
         (2 \<le> length p \<longrightarrow>
            (\<exists>es. fst (load_edges h (snd (trace h g from to)) p) = Some es \<and>
                  length es = length p - 1))"
proof -
  let ?g = "snd (trace h g from to)"
  have inv: "graph_inv h g" using assms(1) by (rule reachable_inv)
  from trace_Some_find[OF inv assms(2)] obtain c d
    where f: "find_path (node_storage g) c d [] = (True, p, node_storage g)" by blast
  have gp: "good_path (node_storage g) c d p" using f by (rule find_sound)
  then have ne: "p \<noteq> []" and w: "walk (node_storage g) p" by (simp_all add: good_path_def)
  have "wf_store h g" using inv unfolding graph_inv_def by blast
  then have "pairs_stored h g p" using w by (rule walk_pairs_stored)
  then have ps: "pairs_stored h ?g p"
    using pairs_stored_cong[of ?g g h p] by (simp add: trace_frame)
  from pairs_stored_edges_along[OF ps] obtain es
    where es: "edges_along h (edge_storage ?g) p = Some es" "length es = length p - 1"
    by blast
  show ?thesis using ne ps es by (simp add: load_edges_def)
qed

theorem traced_path_has_stored_edges_witness:
  "reachable letter_hash graph_ab \<and>
   fst (trace letter_hash graph_ab ''A'' ''B'') = Some [''A'', ''B''] \<and>
   pairs_stored letter_hash (snd (trace letter_hash graph_ab ''A'' ''B'')) [''A'', ''B''] \<and>
   fst (load_edges letter_hash (snd (trace letter_hash graph_ab ''A'' ''B'')) [''A'', ''B''])
     = Some [''A->B'']"
proof -
  have t: "fst (trace letter_hash graph_ab ''A'' ''B'') = Some [''A'', ''B'']"
    by (simp add: graph_ab_eq trace_unfold load_node_def find_evals)
  have l: "fst (load_edges letter_hash (snd (trace letter_hash graph_ab ''A'' ''B'')) [''A'', ''B''])
     = Some [''A->B'']"
    by (simp add: load_edges_def trace_frame graph_ab_eq merge_ids_def letter_hash_def)
  show ?thesis
    using reachable_graph_ab t l traced_path_has_stored_edges[OF reachable_graph_ab t]
    by simp
qed

text \<open>
  Claim C2. The value of \<open>trace\<close> is to be the same with and without the cache. \<open>trace\<close>
  takes the cache entry under the merged key of the query for its answer and compares no
  identifier. With \<open>std::size_t\<close> identifiers hashed to themselves, the nodes 0, 1, 2 and
  the edge \<open>0 \<rightarrow> 1\<close>, \<open>trace(0, 1)\<close> stores its path under the key 2, which is also the key
  of \<open>(2, 0)\<close>. \<open>trace(2, 0)\<close> then returns \<open>[0, 1]\<close>, a path of another pair of nodes, where
  the tracer finds no path and \<open>trace\<close> without the cache returns none.
\<close>

theorem trace_cache_hit_of_other_pair:
  "reachable identity_hash graph_key_2 \<and>
   merge_ids identity_hash 0 1 = merge_ids identity_hash 2 0 \<and>
   cache graph_key_2 = [(merge_ids identity_hash 0 1, [0, 1])] \<and>
   fst (trace identity_hash graph_key_2 2 0) = Some [0, 1] \<and>
   \<not> fst (find_path (node_storage graph_key_2) 2 0 []) \<and>
   fst (trace identity_hash (toggle_cache False graph_key_2) 2 0) = None"
proof (intro conjI)
  show "reachable identity_hash graph_key_2" by (rule reachable_graph_key_2)
  show "merge_ids identity_hash 0 1 = merge_ids identity_hash 2 0"
    by (simp add: merge_ids_def identity_hash_def)
  show "cache graph_key_2 = [(merge_ids identity_hash 0 1, [0, 1])]"
    by (simp add: graph_key_2_eq merge_ids_def identity_hash_def)
  show "fst (trace identity_hash graph_key_2 2 0) = Some [0, 1]"
    by (simp add: graph_key_2_eq trace_unfold load_node_def merge_ids_def identity_hash_def)
  show "\<not> fst (find_path (node_storage graph_key_2) 2 0 [])"
    by (simp add: graph_key_2_eq find_evals)
  show "fst (trace identity_hash (toggle_cache False graph_key_2) 2 0) = None"
    by (simp add: graph_key_2_eq trace_unfold load_node_def toggle_cache_def clear_cache_def
        find_evals)
qed

text \<open>
  Claim C3. For every stored node \<open>x\<close>, \<open>trace(x, x)\<close> is to return the path \<open>[x]\<close>. The
  tracer does (\<open>find_self\<close>), and so does \<open>trace\<close> where the cache holds no path of another
  pair under the key of \<open>(x, x)\<close> (\<open>trace_to_itself\<close>). With \<open>std::size_t\<close> identifiers
  hashed to themselves, the nodes 0, 1, 3 and the edge \<open>3 \<rightarrow> 0\<close>, \<open>trace(3, 0)\<close> stores its
  path under the key 3, which is also the key of \<open>(1, 1)\<close>: \<open>trace(1, 1)\<close> then returns
  \<open>[3, 0]\<close>, and \<open>[1]\<close> without the cache.
\<close>

theorem trace_to_itself_cache_hit:
  "reachable identity_hash graph_key_3 \<and> load_node graph_key_3 1 \<noteq> None \<and>
   merge_ids identity_hash 3 0 = merge_ids identity_hash 1 1 \<and>
   cache graph_key_3 = [(merge_ids identity_hash 3 0, [3, 0])] \<and>
   fst (trace identity_hash graph_key_3 1 1) = Some [3, 0] \<and>
   fst (trace identity_hash (toggle_cache False graph_key_3) 1 1) = Some [1]"
proof (intro conjI)
  show "reachable identity_hash graph_key_3" by (rule reachable_graph_key_3)
  show "load_node graph_key_3 1 \<noteq> None" by (simp add: graph_key_3_eq load_node_def)
  show "merge_ids identity_hash 3 0 = merge_ids identity_hash 1 1"
    by (simp add: merge_ids_def identity_hash_def)
  show "cache graph_key_3 = [(merge_ids identity_hash 3 0, [3, 0])]"
    by (simp add: graph_key_3_eq merge_ids_def identity_hash_def)
  show "fst (trace identity_hash graph_key_3 1 1) = Some [3, 0]"
    by (simp add: graph_key_3_eq trace_unfold load_node_def merge_ids_def identity_hash_def)
  show "fst (trace identity_hash (toggle_cache False graph_key_3) 1 1) = Some [1]"
    by (simp add: graph_key_3_eq trace_unfold load_node_def toggle_cache_def clear_cache_def
        find_evals)
qed

text \<open>
  Claim C4. \<open>optimize_trace\<close> fails exactly when caching is disabled or the cache is
  empty. Otherwise it sets the hint to the quotient of the total length by the number of
  entries, rounded down: with the cached paths \<open>[A]\<close> and \<open>[A, B]\<close> the hint becomes \<open>1\<close>,
  where the ceiling of \<open>3 / 2\<close> is \<open>2\<close>.
\<close>

theorem optimize_trace_rounds_down:
  "fst (optimize_trace g) = (cache_enabled g \<and> cache g \<noteq> []) \<and>
   average_path_len (snd (optimize_trace g)) =
     (if cache_enabled g \<and> cache g \<noteq> []
      then total_paths_len (cache g) div of_nat (length (cache g))
      else average_path_len g) \<and>
   map snd (cache graph_ab_cached) = [[''A''], [''A'', ''B'']] \<and>
   fst (optimize_trace graph_ab_cached) \<and>
   average_path_len (snd (optimize_trace graph_ab_cached)) = 1"
  by (simp add: optimize_trace_def graph_ab_cached_eq graph_ab_eq total_paths_len_def)

text \<open>
  Claim C5. Whenever \<open>add_node\<close> or \<open>add_edge\<close> fails, the whole state of the graph (node
  store with its \<open>out\<close> lists, edge store, cache, cycles flag and the rest) is the state
  before the call. \<open>add_node\<close> fails exactly on a stored identifier, \<open>add_edge\<close> exactly
  when an endpoint is not stored or the merged key of the pair is already in the edge store.
\<close>

theorem failed_insertion_keeps_state:
  "(\<not> fst (add_node g x) \<longrightarrow> snd (add_node g x) = g) \<and>
   (\<not> fst (add_edge h g from to d) \<longrightarrow> snd (add_edge h g from to d) = g) \<and>
   (\<not> fst (add_node g x) \<longleftrightarrow> load_node g x \<noteq> None) \<and>
   (\<not> fst (add_edge h g from to d) \<longleftrightarrow>
      load_node g to = None \<or> load_node g from = None \<or>
      edge_storage g (merge_ids h from to) \<noteq> None)"
  by (simp add: add_node_unfold add_edge_unfold load_node_def)

theorem failed_insertion_keeps_state_witness:
  "\<not> fst (add_node graph_ab ''A'') \<and> snd (add_node graph_ab ''A'') = graph_ab \<and>
   \<not> fst (add_edge letter_hash graph_ab ''A'' ''Z'' ''A->Z'') \<and>
   snd (add_edge letter_hash graph_ab ''A'' ''Z'' ''A->Z'') = graph_ab"
proof -
  have n: "\<not> fst (add_node graph_ab ''A'')"
    by (simp add: add_node_unfold graph_ab_eq)
  have e: "\<not> fst (add_edge letter_hash graph_ab ''A'' ''Z'' ''A->Z'')"
    by (simp add: add_edge_unfold graph_ab_eq)
  show ?thesis
    using n e failed_insertion_keeps_state[of graph_ab "''A''" letter_hash "''A''" "''Z''" "''A->Z''"]
    by blast
qed

text \<open>
  Claim C6, as stated: two distinct identifiers have different merged keys in the two
  orders, and an edge never blocks its reverse. It fails where the two identifiers have
  the same hash: \<open>0\<close> and \<open>2 ^ 64\<close> under a hash that keeps the low 64 bits. The edge
  \<open>0 \<rightarrow> 2 ^ 64\<close> is added, after which the reverse edge is refused as a duplicate and
  \<open>load_edges\<close> on the reverse pair returns the payload of the first edge.
\<close>

theorem reversed_pair_key_counterexample:
  "(0 :: 128 word) \<noteq> 18446744073709551616 \<and>
   merge_ids low_bits_hash 0 18446744073709551616 =
     merge_ids low_bits_hash 18446744073709551616 0 \<and>
   fst (add_edge low_bits_hash graph_wide 0 18446744073709551616 ''forth'') \<and>
   \<not> fst (add_edge low_bits_hash graph_wide_edge 18446744073709551616 0 ''back'') \<and>
   fst (load_edges low_bits_hash graph_wide_edge [18446744073709551616, 0]) = Some [''forth'']"
  by (simp add: graph_wide_edge_eq graph_wide_eq add_edge_unfold merge_ids_wide load_edges_def)

text \<open>
  Claim C6, amended: two identifiers with different hash values have different merged
  keys in the two orders. Adding the edge \<open>a \<rightarrow> b\<close> then leaves the edge store at the key
  of \<open>(b, a)\<close> as it was, puts no \<open>a\<close> into the \<open>out\<close> list of \<open>b\<close>, and changes neither
  whether \<open>add_edge(b, a)\<close> succeeds nor what \<open>load_edges\<close> returns for the path \<open>[b, a]\<close>.
\<close>

theorem reversed_pair_has_its_own_key:
  assumes "h a \<noteq> h b"
  shows "merge_ids h a b \<noteq> merge_ids h b a \<and>
    (fst (add_edge h g a b d) \<longrightarrow>
       edge_storage (snd (add_edge h g a b d)) (merge_ids h b a) =
         edge_storage g (merge_ids h b a) \<and>
       edge_of (node_storage (snd (add_edge h g a b d))) b a = edge_of (node_storage g) b a \<and>
       fst (add_edge h (snd (add_edge h g a b d)) b a d') = fst (add_edge h g b a d') \<and>
       fst (load_edges h (snd (add_edge h g a b d)) [b, a]) = fst (load_edges h g [b, a]))"
proof -
  have k: "merge_ids h a b \<noteq> merge_ids h b a" using assms by (simp add: merge_ids_swap)
  have ab: "a \<noteq> b" using assms by auto
  show ?thesis
  proof (cases "fst (add_edge h g a b d)")
    case False
    then show ?thesis using k by simp
  next
    case True
    let ?g = "g\<lparr>cache := [], node_storage := push_out a b (node_storage g),
                  edge_storage := (edge_storage g)(merge_ids h a b \<mapsto> d),
                  contains_cycles_flag := False\<rparr>"
    have g': "snd (add_edge h g a b d) = ?g"
      using True by (auto simp: add_edge_unfold split: if_splits)
    have e: "edge_storage ?g (merge_ids h b a) = edge_storage g (merge_ids h b a)"
      using k by simp
    have n: "map_of (node_storage ?g) b = map_of (node_storage g) b"
      using ab by (simp add: map_of_push_out)
    have n': "map_of (node_storage ?g) a = None \<longleftrightarrow> map_of (node_storage g) a = None"
      by (simp add: map_of_push_out)
    have o: "edge_of (node_storage ?g) b a = edge_of (node_storage g) b a"
      using n by (simp add: edge_of_def)
    have f: "fst (add_edge h ?g b a d') = fst (add_edge h g b a d')"
      unfolding add_edge_unfold[of h ?g] add_edge_unfold[of h g] e n n' by simp
    have l: "fst (load_edges h ?g [b, a]) = fst (load_edges h g [b, a])"
      using k by (simp add: load_edges_def split: option.splits)
    show ?thesis unfolding g' using k e o f l by blast
  qed
qed

theorem reversed_pair_has_its_own_key_witness:
  "letter_hash ''A'' \<noteq> letter_hash ''B'' \<and>
   merge_ids letter_hash ''A'' ''B'' \<noteq> merge_ids letter_hash ''B'' ''A'' \<and>
   fst (add_edge letter_hash graph_ab_nodes_only ''A'' ''B'' ''A->B'') \<and>
   fst (add_edge letter_hash
         (snd (add_edge letter_hash graph_ab_nodes_only ''A'' ''B'' ''A->B'')) ''B'' ''A'' ''B->A'') \<and>
   fst (load_edges letter_hash
          (snd (add_edge letter_hash graph_ab_nodes_only ''A'' ''B'' ''A->B'')) [''B'', ''A'']) = None"
proof -
  have h: "letter_hash ''A'' \<noteq> letter_hash ''B''" by (simp add: letter_hash_def)
  have s: "fst (add_edge letter_hash graph_ab_nodes_only ''A'' ''B'' ''A->B'')"
    by (simp add: graph_ab_nodes_only_eq add_edge_unfold)
  have r: "fst (add_edge letter_hash graph_ab_nodes_only ''B'' ''A'' ''B->A'')"
    by (simp add: graph_ab_nodes_only_eq add_edge_unfold)
  have l: "fst (load_edges letter_hash graph_ab_nodes_only [''B'', ''A'']) = None"
    by (simp add: graph_ab_nodes_only_eq load_edges_def)
  show ?thesis
    using h s r l
      reversed_pair_has_its_own_key[of letter_hash "''A''" "''B''" graph_ab_nodes_only
        "''A->B''" "''B->A''"]
    by simp
qed

text \<open>
  Claim C7. Once \<open>contains_cycles\<close> has returned true, it is to return true after any
  further \<open>add_node\<close> and \<open>add_edge\<close>. A graph that has a cycle keeps it, and
  \<open>contains_cycles\<close> finds it (\<open>cycles_stay\<close>); but \<open>contains_cycles\<close> asks \<open>trace\<close>, which
  takes a cache entry of another pair for its answer. With \<open>std::size_t\<close> identifiers
  hashed to themselves, the nodes 0, 1, 3 and the edges \<open>0 \<rightarrow> 1\<close> and \<open>3 \<rightarrow> 1\<close>, the graph
  has no cycle; \<open>trace(3, 1)\<close> stores its path under the key 1, which is also the key of
  \<open>(1, 0)\<close>, so \<open>contains_cycles\<close> takes the cached path for a way back from 1 to 0 and
  returns true, where it returns false without the cache. \<open>add_node(5)\<close> clears the cache
  and the flag, and \<open>contains_cycles\<close> returns false.
\<close>

theorem contains_cycles_true_then_false:
  "reachable identity_hash graph_key_1 \<and>
   \<not> has_cycle (node_storage graph_key_1) \<and>
   merge_ids identity_hash 3 1 = merge_ids identity_hash 1 0 \<and>
   cache graph_key_1 = [(merge_ids identity_hash 3 1, [3, 1])] \<and>
   fst (contains_cycles identity_hash graph_key_1) \<and>
   \<not> fst (contains_cycles identity_hash (toggle_cache False graph_key_1)) \<and>
   \<not> fst (contains_cycles identity_hash
           (mutations identity_hash (snd (contains_cycles identity_hash graph_key_1))
              [Add_node 5]))"
proof -
  have c: "contains_cycles identity_hash graph_key_1 =
      (True, graph_key_1\<lparr>contains_cycles_flag := True\<rparr>)"
    by (simp add: graph_key_1_eq contains_cycles_def trace_unfold load_node_def merge_ids_def
        identity_hash_def)
  have m: "mutations identity_hash (graph_key_1\<lparr>contains_cycles_flag := True\<rparr>) [Add_node 5] =
      \<lparr>contains_cycles_flag = False,
       node_storage = [(0, \<lparr>out = [1], marked = False\<rparr>), (1, \<lparr>out = [], marked = False\<rparr>),
                       (3, \<lparr>out = [1], marked = False\<rparr>), (5, \<lparr>out = [], marked = False\<rparr>)],
       edge_storage = [2 \<mapsto> ''0->1'', 1 \<mapsto> ''3->1''],
       cache_enabled = True, average_path_len = 0, cache = []\<rparr>"
    by (simp add: graph_key_1_eq mutations_def add_node_unfold emplace_def word_le_nat_alt)
  have n: "\<not> fst (contains_cycles identity_hash
      (mutations identity_hash (graph_key_1\<lparr>contains_cycles_flag := True\<rparr>) [Add_node 5]))"
    unfolding m
    by (simp add: contains_cycles_def trace_unfold load_node_def find_evals)
  have u: "\<not> fst (contains_cycles identity_hash (toggle_cache False graph_key_1))"
    by (simp add: graph_key_1_eq contains_cycles_def trace_unfold load_node_def find_evals
        toggle_cache_def clear_cache_def)
  have "graph_inv identity_hash (toggle_cache False graph_key_1)"
    by (intro reachable_inv reachable.r_toggle_cache reachable_graph_key_1)
  then have "\<not> has_cycle (node_storage (toggle_cache False graph_key_1))"
    using u contains_cycles_true by blast
  then have a: "\<not> has_cycle (node_storage graph_key_1)"
    by (simp add: toggle_cache_def clear_cache_def)
  have k: "merge_ids identity_hash 3 1 = merge_ids identity_hash 1 0"
    by (simp add: merge_ids_def identity_hash_def)
  have e: "cache graph_key_1 = [(merge_ids identity_hash 3 1, [3, 1])]"
    by (simp add: graph_key_1_eq merge_ids_def identity_hash_def)
  show ?thesis using reachable_graph_key_1 a k e c n u by simp
qed

text \<open>
  Claim C8. On the graph built from the nodes A to I and the twelve edges in their
  order, \<open>trace(A, I)\<close> returns the path \<open>[A, B, I]\<close> and \<open>load_edges\<close> on it returns the
  payloads \<open>A->B\<close> and \<open>B->I\<close>. The values of \<open>std::hash<std::string>\<close> are not part of the
  repository, so the hash is a parameter; the statement holds for every hash under which
  \<open>build_from\<close> returns true, that is, under which the graph is built at all.
\<close>

theorem graph_six_trace_A_I:
  assumes "fst (build_from h graph_c_default graph_six)"
  shows "fst (trace h (snd (build_from h graph_c_default graph_six)) ''A'' ''I'') =
           Some [''A'', ''B'', ''I''] \<and>
         fst (load_edges h (snd (trace h (snd (build_from h graph_c_default graph_six)) ''A'' ''I''))
                [''A'', ''B'', ''I'']) = Some [''A->B'', ''B->I'']"
proof -
  let ?g1 = "(graph_c_default :: (string, string) graph_c)\<lparr>node_storage :=
        map (\<lambda>x. (x, \<lparr>out = [], marked = False\<rparr>)) (nodes graph_six)\<rparr>"
  let ?g = "snd (build_from h graph_c_default graph_six)"
  let ?kvs = "map (\<lambda>e. (edge_key h e, data e)) (edges graph_six)"
  have b: "build_from h graph_c_default graph_six = add_edges h ?g1 (edges graph_six)"
    by (simp add: build_from_def add_nodes_graph_six)
  have built: "fst (add_edges h ?g1 (edges graph_six))" using assms b by simp
  have d: "distinct (map (edge_key h) (edges graph_six))"
    using add_edges_succeeded[OF built] by blast
  have e1: "\<forall>e\<in>set (edges graph_six). edge_storage ?g1 (edge_key h e) = None"
    by (simp add: graph_c_default_def graph_c_with_def)
  have e2: "\<forall>e\<in>set (edges graph_six). map_of (node_storage ?g1) (from_id e) \<noteq> None \<and>
                      map_of (node_storage ?g1) (to_id e) \<noteq> None"
    by (simp add: graph_six_def edge_def)
  note s = add_edges_success[OF d e1 e2]
  have ns: "node_storage ?g = graph_six_nodes"
    using s b by (simp add: graph_six_built_nodes)
  have es: "edge_storage ?g k =
      (case map_of ?kvs k of Some d \<Rightarrow> Some d | None \<Rightarrow> None)" for k
  proof -
    have em: "edge_storage ?g1 k = None" by (simp add: graph_c_default_def graph_c_with_def)
    from s have "edge_storage (snd (add_edges h ?g1 (edges graph_six))) k =
        (case map_of ?kvs k of Some d \<Rightarrow> Some d | None \<Rightarrow> edge_storage ?g1 k)"
      by blast
    then show ?thesis unfolding b em .
  qed
  have c: "cache ?g = []" "cache_enabled ?g"
    using s b by (simp_all add: graph_c_default_def graph_c_with_def)
  have present: "load_node ?g ''A'' \<noteq> None" "load_node ?g ''I'' \<noteq> None"
    by (simp_all add: load_node_def ns graph_six_nodes_def)
  have t: "fst (trace h ?g ''A'' ''I'') = Some [''A'', ''B'', ''I'']"
    using present c by (simp add: trace_unfold ns find_graph_six_A_I)
  have dk: "distinct (map fst ?kvs)" using d by (simp add: comp_def)
  have k1: "map_of ?kvs (merge_ids h ''A'' ''B'') = Some ''A->B''"
    by (rule map_of_is_SomeI[OF dk]) (simp add: graph_six_def edge_def edge_key_def)
  have k2: "map_of ?kvs (merge_ids h ''B'' ''I'') = Some ''B->I''"
    by (rule map_of_is_SomeI[OF dk]) (simp add: graph_six_def edge_def edge_key_def)
  have l: "fst (load_edges h (snd (trace h ?g ''A'' ''I'')) [''A'', ''B'', ''I'']) =
      Some [''A->B'', ''B->I'']"
    by (simp add: load_edges_def trace_frame es k1 k2)
  show ?thesis using t l by blast
qed

theorem graph_six_trace_A_I_witness:
  "fst (build_from letter_hash graph_c_default graph_six) \<and>
   fst (trace letter_hash (snd (build_from letter_hash graph_c_default graph_six)) ''A'' ''I'') =
     Some [''A'', ''B'', ''I''] \<and>
   fst (load_edges letter_hash
          (snd (trace letter_hash (snd (build_from letter_hash graph_c_default graph_six)) ''A'' ''I''))
          [''A'', ''B'', ''I'']) = Some [''A->B'', ''B->I'']"
  using graph_six_built graph_six_trace_A_I[OF graph_six_built] by blast

text \<open>
  Claim C9. If every visiting marker is clear before \<open>trace\<close>, every marker is clear after
  it, whether it returns a path or not; the same holds for every other public operation
  that returns a state. (\<open>find_path\<close> hands back the very store it was given, \<open>find_store\<close>.)
\<close>

theorem markers_clear_after_every_operation:
  assumes "all_clear (node_storage g)"
  shows "all_clear (node_storage (snd (trace h g from to))) \<and>
         all_clear (node_storage (snd (contains_cycles h g))) \<and>
         all_clear (node_storage (snd (add_node g x))) \<and>
         all_clear (node_storage (snd (add_edge h g a b d))) \<and>
         all_clear (node_storage (snd (build_from h g source))) \<and>
         all_clear (node_storage (clear_cache g)) \<and>
         all_clear (node_storage (toggle_cache enabled g)) \<and>
         all_clear (node_storage (snd (optimize_trace g))) \<and>
         all_clear (node_storage (snd (load_edges h g path)))"
proof -
  have an: "all_clear (node_storage (snd (add_node g' y)))" if "all_clear (node_storage g')"
    for g' :: "('a, 'b) graph_c" and y
    using that by (simp add: add_node_unfold all_clear_emplace)
  have ae: "all_clear (node_storage (snd (add_edge h g' u v w)))" if "all_clear (node_storage g')"
    for g' :: "('a, 'b) graph_c" and u v w
    using that by (simp add: add_edge_unfold all_clear_push_out)
  have ans: "all_clear (node_storage (snd (add_nodes g' ys)))" if "all_clear (node_storage g')"
    for g' :: "('a, 'b) graph_c" and ys
    using that
  proof (induction ys arbitrary: g')
    case Nil
    then show ?case by simp
  next
    case (Cons y ys)
    obtain ok g1 where r: "add_node g' y = (ok, g1)" by (cases "add_node g' y") auto
    have "all_clear (node_storage g1)" using an[OF Cons.prems, of y] r by simp
    then show ?case using Cons.IH[of g1] r by simp
  qed
  have aes: "all_clear (node_storage (snd (add_edges h g' es)))" if "all_clear (node_storage g')"
    for g' :: "('a, 'b) graph_c" and es
    using that
  proof (induction es arbitrary: g')
    case Nil
    then show ?case by simp
  next
    case (Cons e es)
    obtain ok g1 where r: "add_edge h g' (from_id e) (to_id e) (data e) = (ok, g1)"
      by (cases "add_edge h g' (from_id e) (to_id e) (data e)") auto
    have "all_clear (node_storage g1)"
      using ae[OF Cons.prems, of "from_id e" "to_id e" "data e"] r by simp
    then show ?case using Cons.IH[of g1] r by simp
  qed
  have bf: "all_clear (node_storage (snd (build_from h g source)))"
  proof -
    obtain ok g1 where r: "add_nodes g (nodes source) = (ok, g1)"
      by (cases "add_nodes g (nodes source)") auto
    have "all_clear (node_storage g1)" using ans[OF assms, of "nodes source"] r by simp
    then show ?thesis using aes[of g1 "edges source"] r by (simp add: build_from_def)
  qed
  have cc: "node_storage (snd (contains_cycles h g)) = node_storage g"
    using contains_cycles_same[of g h] by (simp add: same_graph_def)
  show ?thesis
    using assms an[OF assms] ae[OF assms] bf cc
    by (simp add: trace_frame clear_cache_def toggle_cache_def optimize_trace_def load_edges_def)
qed

theorem markers_clear_after_every_operation_witness:
  "all_clear (node_storage graph_ab) \<and>
   all_clear (node_storage (snd (trace letter_hash graph_ab ''A'' ''B''))) \<and>
   all_clear (node_storage (snd (trace letter_hash graph_ab ''B'' ''A'')))"
proof -
  have c: "all_clear (node_storage graph_ab)"
    by (simp add: graph_ab_eq all_clear_def)
  show ?thesis
    using c markers_clear_after_every_operation[OF c, of letter_hash "''A''" "''B''"]
      markers_clear_after_every_operation[OF c, of letter_hash "''B''" "''A''"]
    by blast
qed

text \<open>
  Claim C10. \<open>trace\<close>, \<open>load_edges\<close> and \<open>contains_cycles\<close> leave the node store (the set of
  nodes and every \<open>out\<close> list) and the edge store as they were, for every state and all
  identifiers, stored or not. \<open>trace\<close> changes nothing but the cache, \<open>contains_cycles\<close>
  nothing but the cache and the cycles flag, and \<open>load_edges\<close> nothing at all; none of them
  switches the cache on or off.
\<close>

theorem queries_keep_nodes_and_edges:
  "node_storage (snd (trace h g from to)) = node_storage g \<and>
   edge_storage (snd (trace h g from to)) = edge_storage g \<and>
   cache_enabled (snd (trace h g from to)) = cache_enabled g \<and>
   snd (trace h g from to) = g\<lparr>cache := cache (snd (trace h g from to))\<rparr> \<and>
   snd (load_edges h g path) = g \<and>
   node_storage (snd (contains_cycles h g)) = node_storage g \<and>
   edge_storage (snd (contains_cycles h g)) = edge_storage g \<and>
   cache_enabled (snd (contains_cycles h g)) = cache_enabled g \<and>
   snd (contains_cycles h g) =
     g\<lparr>cache := cache (snd (contains_cycles h g)),
       contains_cycles_flag := contains_cycles_flag (snd (contains_cycles h g))\<rparr>"
proof -
  have t: "snd (trace h g from to) = g\<lparr>cache := cache (snd (trace h g from to))\<rparr>"
    by (rule graph_c.equality) (simp_all add: trace_frame)
  have s: "same_graph g (snd (contains_cycles h g))" by (rule contains_cycles_same)
  have c: "snd (contains_cycles h g) =
     g\<lparr>cache := cache (snd (contains_cycles h g)),
       contains_cycles_flag := contains_cycles_flag (snd (contains_cycles h g))\<rparr>"
    by (rule graph_c.equality) (use s in \<open>simp_all add: same_graph_def\<close>)
  have l: "snd (load_edges h g path) = g" by (simp add: load_edges_def)
  show ?thesis using t c l s by (simp add: trace_frame same_graph_def)
qed

end
